theory Spec2Isabelle
  imports Complex_Main
begin

section \<open>Python strings\<close>

text \<open>
  A Python \<open>str\<close> is a sequence of Unicode code points; the texts of the bot are Russian,
  so a string is a list of code points, not of bytes. \<open>ascii\<close> reads an ASCII literal.
\<close>

type_synonym ustr = "nat list"

definition ascii :: "string \<Rightarrow> ustr" where
  "ascii s = map of_char s"

text \<open>The code points \<open>str.isspace\<close> accepts, which are those \<open>str.split()\<close> splits at.\<close>

definition is_space :: "nat \<Rightarrow> bool" where
  "is_space c =
     ((9 \<le> c \<and> c \<le> 13) \<or> (28 \<le> c \<and> c \<le> 32) \<or> c = 133 \<or> c = 160 \<or> c = 5760
      \<or> (8192 \<le> c \<and> c \<le> 8202) \<or> c = 8232 \<or> c = 8233 \<or> c = 8239 \<or> c = 8287
      \<or> c = 12288)"

text \<open>
  \<open>text.split()\<close>: the maximal runs of non-space code points, in order. \<open>cur\<close> is the
  word being read.
\<close>

fun split_from :: "ustr \<Rightarrow> ustr \<Rightarrow> ustr list" where
  "split_from cur [] = (if cur = [] then [] else [cur])"
| "split_from cur (c # cs) =
     (if is_space c then (if cur = [] then split_from [] cs else cur # split_from [] cs)
      else split_from (cur @ [c]) cs)"

definition py_split :: "ustr \<Rightarrow> ustr list" where
  "py_split s = split_from [] s"

text \<open>
  Python's \<open>str\<close> of an integer: the decimal digits, most significant first, after a
  minus sign for a negative number.
\<close>

definition digit_char :: "nat \<Rightarrow> char" where
  "digit_char d = char_of (48 + d)"

function str_nat :: "nat \<Rightarrow> string" where
  "str_nat n = (if n < 10 then [digit_char n] else str_nat (n div 10) @ [digit_char (n mod 10)])"
  by pat_completeness auto
termination
  by (relation "measure (\<lambda>n. n)") auto

declare str_nat.simps [simp del]

definition str_int :: "int \<Rightarrow> string" where
  "str_int i = (if i < 0 then CHR ''-'' # str_nat (nat (- i)) else str_nat (nat i))"

text \<open>The value of a decimal digit character (the inverse of \<open>digit_char\<close>).\<close>

definition digit_val :: "char \<Rightarrow> nat" where
  "digit_val c = of_char c - 48"

section \<open>Raster images (the part of the imaging library the pipeline uses)\<close>

text \<open>
  What \<open>Image.getpixel\<close> returns: a tuple of channel values (three or more for colour
  images) or a single integer (greyscale and palette images).
\<close>

datatype pixel = PixTuple "nat list" | PixInt nat

text \<open>
  An image has a size and a pixel at every position inside it; positions are \<open>(x, y)\<close>
  with \<open>x\<close> the column. Encoding an image as PNG and decoding it again gives the same
  image, so the byte buffers the functions hand to each other are left out.
\<close>

record image =
  width :: nat
  height :: nat
  getpixel :: "nat \<Rightarrow> nat \<Rightarrow> pixel"

definition white :: pixel where
  "white = PixTuple [255, 255, 255]"

text \<open>\<open>Image.new('RGB', (w, h), 'white')\<close>.\<close>

definition new_image :: "nat \<Rightarrow> nat \<Rightarrow> image" where
  "new_image w h = \<lparr>width = w, height = h, getpixel = (\<lambda>x y. white)\<rparr>"

text \<open>
  \<open>canvas.paste(src, (ox, oy))\<close>: the pixels of \<open>src\<close> replace those of the canvas in
  the box that starts at \<open>(ox, oy)\<close>; what falls outside the canvas is dropped, and the
  size of the canvas does not change.
\<close>

definition paste :: "image \<Rightarrow> image \<Rightarrow> int \<Rightarrow> int \<Rightarrow> image" where
  "paste canvas src ox oy =
     canvas\<lparr>getpixel := (\<lambda>x y.
        if ox \<le> int x \<and> int x < ox + int (width src) \<and> oy \<le> int y \<and> int y < oy + int (height src)
        then getpixel src (nat (int x - ox)) (nat (int y - oy))
        else getpixel canvas x y)\<rparr>"

text \<open>
  \<open>img.rotate(90, expand=True)\<close>: a quarter turn counter-clockwise; the sizes swap and
  the top right corner becomes the top left one.
\<close>

definition rotate90 :: "image \<Rightarrow> image" where
  "rotate90 img =
     \<lparr>width = height img, height = width img,
      getpixel = (\<lambda>x y. getpixel img (width img - 1 - y) x)\<rparr>"

text \<open>
  \<open>img.crop((left, 0, right, height))\<close> for a box inside the image: the columns
  \<open>left \<le> x < right\<close>, all rows.
\<close>

definition crop :: "image \<Rightarrow> int \<Rightarrow> int \<Rightarrow> image" where
  "crop img left right =
     \<lparr>width = nat (right - left), height = height img,
      getpixel = (\<lambda>x y. getpixel img (nat (int x + left)) y)\<rparr>"

section \<open>Margin cropper (smart\_crop\_image)\<close>

text \<open>Python's \<open>range(start, stop, step)\<close> for a positive step.\<close>

function range_step :: "nat \<Rightarrow> nat \<Rightarrow> nat \<Rightarrow> nat list" where
  "range_step start stop step =
     (if step = 0 \<or> stop \<le> start then [] else start # range_step (start + step) stop step)"
  by pat_completeness auto
termination
  by (relation "measure (\<lambda>(start, stop, step). stop - start)") auto

declare range_step.simps [simp del]

text \<open>The rows the cropper looks at: \<open>range(0, height, max(1, height // 20))\<close>.\<close>

definition sample_rows :: "nat \<Rightarrow> nat list" where
  "sample_rows h = range_step 0 h (max 1 (h div 20))"

text \<open>
  The test on one pixel: a tuple of at least three channels with \<open>r < 250 or g < 250 or
  b < 250\<close>, or an integer below 250.
\<close>

fun pixel_has_content :: "pixel \<Rightarrow> bool" where
  "pixel_has_content (PixTuple (r # g # b # rest)) = (r < 250 \<or> g < 250 \<or> b < 250)"
| "pixel_has_content (PixTuple short) = False"
| "pixel_has_content (PixInt v) = (v < 250)"

text \<open>The inner loop over the sampled rows of column \<open>x\<close>, left at the first hit.\<close>

fun has_content :: "image \<Rightarrow> nat \<Rightarrow> nat list \<Rightarrow> bool" where
  "has_content img x [] = False"
| "has_content img x (y # ys) =
     (if pixel_has_content (getpixel img x y) then True else has_content img x ys)"

text \<open>The inner loop as it runs for column \<open>x\<close> of an image.\<close>

definition column_has_content :: "image \<Rightarrow> nat \<Rightarrow> bool" where
  "column_has_content img x = has_content img x (sample_rows (height img))"

text \<open>
  The two outer loops. From the left over \<open>range(width)\<close>, the first column with content
  sets \<open>left_boundary = max(0, x - 10)\<close>; with no such column it stays 0. From the right
  over \<open>range(width - 1, -1, -1)\<close>, the first column with content sets
  \<open>right_boundary = min(width, x + 10)\<close>; with none it stays \<open>width\<close>.
\<close>

fun scan_left :: "image \<Rightarrow> nat list \<Rightarrow> int" where
  "scan_left img [] = 0"
| "scan_left img (x # xs) =
     (if column_has_content img x then max 0 (int x - 10) else scan_left img xs)"

fun scan_right :: "image \<Rightarrow> nat list \<Rightarrow> int" where
  "scan_right img [] = int (width img)"
| "scan_right img (x # xs) =
     (if column_has_content img x then min (int (width img)) (int x + 10)
      else scan_right img xs)"

definition left_boundary :: "image \<Rightarrow> int" where
  "left_boundary img = scan_left img [0..<width img]"

definition right_boundary :: "image \<Rightarrow> int" where
  "right_boundary img = scan_right img (rev [0..<width img])"

definition smart_crop_image :: "image \<Rightarrow> image" where
  "smart_crop_image img =
     (if left_boundary img > 0 \<or> right_boundary img < int (width img) - 10
      then crop img (left_boundary img) (right_boundary img)
      else img)"

text \<open>
  The reading of the specification, for comparison: a pixel is content when the average
  of its three colour channels is below 250.
\<close>

definition spec_pixel_has_content :: "pixel \<Rightarrow> bool" where
  "spec_pixel_has_content p =
     (case p of PixTuple (r # g # b # rest) \<Rightarrow> (r + g + b) div 3 < 250 | _ \<Rightarrow> False)"

text \<open>
  A small test image: 40 columns, 2 rows, white but for column 20, which is black.
\<close>

definition stripe_image :: image where
  "stripe_image =
     \<lparr>width = 40, height = 2,
      getpixel = (\<lambda>x y. if x = 20 then PixTuple [0, 0, 0] else white)\<rparr>"

section \<open>Text fitting (the three functions draw\_text\_with\_smart\_fit)\<close>

text \<open>
  The font library is outside the program. What the fitting reads of it is
  \<open>draw.textlength(text, font)\<close> for the font loaded at a size: the parameter \<open>tlen\<close>, a
  width in pixels (a fraction of a pixel is possible) for a font size and a text. The
  chain of fallback fonts (\<open>font_family\<close>, DejaVuSans, the built-in font) only decides
  which font that is.
\<close>

type_synonym metric = "nat \<Rightarrow> ustr \<Rightarrow> rat"

definition ellipsis :: ustr where
  "ellipsis = [46, 46, 46]"

text \<open>\<open>current_line + (" " if current_line else "") + word\<close>.\<close>

definition test_line :: "ustr \<Rightarrow> ustr \<Rightarrow> ustr" where
  "test_line current_line word = current_line @ (if current_line \<noteq> [] then [32] else []) @ word"

text \<open>
  The loop that shortens a word that is too wide: while the word with \<open>"..."\<close> is wider
  than the limit and has more than three characters, drop its last character.
\<close>

function truncate_word :: "(ustr \<Rightarrow> rat) \<Rightarrow> int \<Rightarrow> ustr \<Rightarrow> ustr" where
  "truncate_word tlf limit truncated_word =
     (if tlf (truncated_word @ ellipsis) > of_int limit \<and> length truncated_word > 3
      then truncate_word tlf limit (butlast truncated_word)
      else truncated_word)"
  by pat_completeness auto
termination
  by (relation "measure (\<lambda>(tlf, limit, w). length w)") auto

declare truncate_word.simps [simp del]

text \<open>
  The body of the loop over the words; the state is \<open>(lines, current_line)\<close>. There are
  three versions of it in the source.

  \<open>step_truncating\<close>: the first loop of \<open>generate_smart_label\<close> and of
  \<open>generate_barcode_image_for_combined\<close>. A word that does not fit on an empty line is
  shortened and put on a line of its own; a word that does not fit after other words
  starts the next line as it is.
\<close>

definition step_truncating :: "(ustr \<Rightarrow> rat) \<Rightarrow> int \<Rightarrow> ustr list \<times> ustr \<Rightarrow> ustr \<Rightarrow> ustr list \<times> ustr" where
  "step_truncating tlf limit st word =
     (case st of (lines, current_line) \<Rightarrow>
        if tlf (test_line current_line word) \<le> of_int limit
        then (lines, test_line current_line word)
        else if current_line \<noteq> [] then (lines @ [current_line], word)
        else if tlf word > of_int limit
        then (lines @ [truncate_word tlf limit word @ ellipsis], [])
        else (lines, word))"

text \<open>
  \<open>step_fallback_truncating\<close>: the last-resort loop of \<open>generate_smart_label\<close>; as above,
  but a word alone on its line is appended at once, shortened or not.
\<close>

definition step_fallback_truncating :: "(ustr \<Rightarrow> rat) \<Rightarrow> int \<Rightarrow> ustr list \<times> ustr \<Rightarrow> ustr \<Rightarrow> ustr list \<times> ustr" where
  "step_fallback_truncating tlf limit st word =
     (case st of (lines, current_line) \<Rightarrow>
        if tlf (test_line current_line word) \<le> of_int limit
        then (lines, test_line current_line word)
        else if current_line \<noteq> [] then (lines @ [current_line], word)
        else if tlf word > of_int limit
        then (lines @ [truncate_word tlf limit word @ ellipsis], current_line)
        else (lines @ [word], current_line))"

text \<open>
  \<open>step_plain\<close>: both loops of \<open>generate_barcode_image\<close> and the last-resort loop of
  \<open>generate_barcode_image_for_combined\<close>; no word is ever shortened.
\<close>

definition step_plain :: "(ustr \<Rightarrow> rat) \<Rightarrow> int \<Rightarrow> ustr list \<times> ustr \<Rightarrow> ustr \<Rightarrow> ustr list \<times> ustr" where
  "step_plain tlf limit st word =
     (case st of (lines, current_line) \<Rightarrow>
        if tlf (test_line current_line word) \<le> of_int limit
        then (lines, test_line current_line word)
        else if current_line \<noteq> [] then (lines @ [current_line], word)
        else (lines @ [word], current_line))"

text \<open>
  The whole wrapping: \<open>words = text.split()\<close>, the loop from \<open>lines = []\<close>,
  \<open>current_line = ""\<close>, and the line left over appended at the end.
\<close>

definition wrap_lines :: "(ustr list \<times> ustr \<Rightarrow> ustr \<Rightarrow> ustr list \<times> ustr) \<Rightarrow> ustr \<Rightarrow> ustr list" where
  "wrap_lines step text =
     (case foldl step ([], []) (py_split text) of
        (lines, current_line) \<Rightarrow> if current_line \<noteq> [] then lines @ [current_line] else lines)"

text \<open>
  What a call of \<open>draw_text_with_smart_fit\<close> settles on: a candidate size whose lines pass
  the test of height and number of lines, with these lines; or the last resort, with the
  lines it draws (the first ones of its own wrapping).
\<close>

datatype fit = Fitted nat "ustr list" | LastResort nat "ustr list"

text \<open>
  The loop over the candidate sizes, largest first: the first size whose wrapping has at
  most \<open>max_lines\<close> lines and a total height \<open>len(lines) * font_size\<close> within
  \<open>max_height\<close> is taken.
\<close>

fun try_sizes :: "(nat \<Rightarrow> ustr list) \<Rightarrow> int \<Rightarrow> nat \<Rightarrow> nat list \<Rightarrow> (nat \<times> ustr list) option" where
  "try_sizes wrap_at max_height max_lines [] = None"
| "try_sizes wrap_at max_height max_lines (font_size # rest) =
     (if int (length (wrap_at font_size) * font_size) \<le> max_height
         \<and> length (wrap_at font_size) \<le> max_lines
      then Some (font_size, wrap_at font_size)
      else try_sizes wrap_at max_height max_lines rest)"

text \<open>
  \<open>draw_text_with_smart_fit\<close> of \<open>generate_smart_label\<close>: sizes 50 down to 12, a margin of
  20 pixels, up to 4 lines; the last resort is size 20 with a margin of 10 and 3 lines.
\<close>

definition smart_fit_label :: "metric \<Rightarrow> ustr \<Rightarrow> int \<Rightarrow> int \<Rightarrow> fit" where
  "smart_fit_label tlen text max_width max_height =
     (case try_sizes (\<lambda>font_size. wrap_lines (step_truncating (tlen font_size) (max_width - 20)) text)
             max_height 4 [50, 45, 40, 35, 30, 25, 20, 18, 16, 14, 12] of
        Some (font_size, lines) \<Rightarrow> Fitted font_size lines
      | None \<Rightarrow>
          LastResort 20
            (take 3 (wrap_lines (step_fallback_truncating (tlen 20) (max_width - 10)) text)))"

text \<open>
  \<open>draw_text_with_smart_fit\<close> of \<open>generate_barcode_image_for_combined\<close>: sizes 35 down to
  10, a margin of 20 pixels, up to 3 lines; the last resort is size 16 with no margin, no
  shortening and 2 lines.
\<close>

definition smart_fit_combined :: "metric \<Rightarrow> ustr \<Rightarrow> int \<Rightarrow> int \<Rightarrow> fit" where
  "smart_fit_combined tlen text max_width max_height =
     (case try_sizes (\<lambda>font_size. wrap_lines (step_truncating (tlen font_size) (max_width - 20)) text)
             max_height 3 [35, 30, 25, 20, 18, 16, 14, 12, 10] of
        Some (font_size, lines) \<Rightarrow> Fitted font_size lines
      | None \<Rightarrow> LastResort 16 (take 2 (wrap_lines (step_plain (tlen 16) max_width) text)))"

text \<open>
  \<open>draw_text_with_smart_fit\<close> of \<open>generate_barcode_image\<close>: sizes 40 down to 10, the whole
  width, no shortening, up to 3 lines; the last resort is size 18 and 2 lines.
\<close>

definition smart_fit_barcode :: "metric \<Rightarrow> ustr \<Rightarrow> int \<Rightarrow> int \<Rightarrow> fit" where
  "smart_fit_barcode tlen text max_width max_height =
     (case try_sizes (\<lambda>font_size. wrap_lines (step_plain (tlen font_size) max_width) text)
             max_height 3 [40, 35, 30, 25, 20, 18, 16, 14, 12, 10] of
        Some (font_size, lines) \<Rightarrow> Fitted font_size lines
      | None \<Rightarrow> LastResort 18 (take 2 (wrap_lines (step_plain (tlen 18) max_width) text)))"

text \<open>
  The calls \<open>draw.text((line_x, line_y), line, font=font)\<close> a fit leads to: line \<open>i\<close> goes to
  \<open>line_x = x + (max_width - line_width) // 2\<close> and \<open>line_y = y + i * font_size\<close>.
\<close>

record draw_op =
  op_x :: rat
  op_y :: int
  op_text :: ustr
  op_size :: nat

definition fit_size :: "fit \<Rightarrow> nat" where
  "fit_size f = (case f of Fitted s ls \<Rightarrow> s | LastResort s ls \<Rightarrow> s)"

definition fit_lines :: "fit \<Rightarrow> ustr list" where
  "fit_lines f = (case f of Fitted s ls \<Rightarrow> ls | LastResort s ls \<Rightarrow> ls)"

definition draw_ops :: "metric \<Rightarrow> int \<Rightarrow> int \<Rightarrow> int \<Rightarrow> fit \<Rightarrow> draw_op list" where
  "draw_ops tlen x y max_width f =
     map (\<lambda>(i, line).
            \<lparr>op_x = of_int x + of_int \<lfloor>(of_int max_width - tlen (fit_size f) line) / 2\<rfloor>,
             op_y = y + int i * int (fit_size f),
             op_text = line,
             op_size = fit_size f\<rparr>)
         (enumerate 0 (fit_lines f))"

text \<open>
  A fixed-pitch font for the examples: every character is three fifths of the font size
  wide.
\<close>

definition mono_font :: metric where
  "mono_font font_size text = of_nat (font_size * length text * 3) / 5"

text \<open>
  The invariant of the wrapping loops: a line that holds a space, that is, two words or
  more, has passed the width test.
\<close>

definition joined_fits :: "(ustr \<Rightarrow> rat) \<Rightarrow> int \<Rightarrow> ustr \<Rightarrow> bool" where
  "joined_fits f limit l = (32 \<in> set l \<longrightarrow> f l \<le> of_int limit)"

section \<open>Product texts (extract\_color\_from\_product, shorten\_product\_name\_for\_barcode)\<close>

text \<open>
  More of Python's string methods, on lists of code points. The classification of code
  points (\<open>lower\<close>, the classes \<open>\w\<close> and \<open>\s\<close> of regular expressions) is written out for
  ASCII and for the Cyrillic block, the alphabets of the product names; other code points
  are treated as symbols without case.
\<close>

definition lower_char :: "nat \<Rightarrow> nat" where
  "lower_char c =
     (if 65 \<le> c \<and> c \<le> 90 then c + 32
      else if 1040 \<le> c \<and> c \<le> 1071 then c + 32
      else if 1024 \<le> c \<and> c \<le> 1039 then c + 80
      else c)"

definition py_lower :: "ustr \<Rightarrow> ustr" where
  "py_lower s = map lower_char s"

text \<open>\<open>\w\<close>: letters, digits and the underscore.\<close>

definition is_word_char :: "nat \<Rightarrow> bool" where
  "is_word_char c =
     ((48 \<le> c \<and> c \<le> 57) \<or> (65 \<le> c \<and> c \<le> 90) \<or> c = 95 \<or> (97 \<le> c \<and> c \<le> 122)
      \<or> (1024 \<le> c \<and> c \<le> 1153) \<or> (1162 \<le> c \<and> c \<le> 1327))"

text \<open>\<open>s.startswith(p)\<close> and the substring test \<open>p in s\<close>.\<close>

fun starts_with :: "ustr \<Rightarrow> ustr \<Rightarrow> bool" where
  "starts_with s [] = True"
| "starts_with [] (p # ps) = False"
| "starts_with (c # cs) (p # ps) = (c = p \<and> starts_with cs ps)"

fun contains :: "ustr \<Rightarrow> ustr \<Rightarrow> bool" where
  "contains [] p = (p = [])"
| "contains (c # cs) p = (starts_with (c # cs) p \<or> contains cs p)"

text \<open>
  \<open>s.replace(old, new)\<close>: the occurrences of \<open>old\<close>, found from the left and not
  overlapping, are replaced; the comparison is exact, so it distinguishes upper and lower
  case. \<open>fuel\<close> bounds the steps; the length of \<open>s\<close> plus one is enough.
\<close>

fun replace_from :: "nat \<Rightarrow> ustr \<Rightarrow> ustr \<Rightarrow> ustr \<Rightarrow> ustr" where
  "replace_from 0 s old new = s"
| "replace_from (Suc fuel) [] old new = []"
| "replace_from (Suc fuel) (c # cs) old new =
     (if starts_with (c # cs) old
      then new @ replace_from fuel (drop (length old) (c # cs)) old new
      else c # replace_from fuel cs old new)"

definition py_replace :: "ustr \<Rightarrow> ustr \<Rightarrow> ustr \<Rightarrow> ustr" where
  "py_replace s old new =
     (if old = [] then new @ concat (map (\<lambda>c. c # new) s)
      else replace_from (Suc (length s)) s old new)"

text \<open>\<open>s.strip()\<close> and \<open>sep.join(parts)\<close>.\<close>

definition py_strip :: "ustr \<Rightarrow> ustr" where
  "py_strip s = rev (dropWhile is_space (rev (dropWhile is_space s)))"

fun py_join :: "ustr \<Rightarrow> ustr list \<Rightarrow> ustr" where
  "py_join sep [] = []"
| "py_join sep [p] = p"
| "py_join sep (p # q # ps) = p @ sep @ py_join sep (q # ps)"

text \<open>\<open>str(n)\<close> for an integer, as code points.\<close>

definition ustr_of_int :: "int \<Rightarrow> ustr" where
  "ustr_of_int n = ascii (str_int n)"

text \<open>The Russian words of the source, as code points (transliterated in the names).\<close>

definition Tovar :: ustr where
  \<comment> \<open>Tovar (goods), the default name\<close>
  "Tovar = [1058, 1086, 1074, 1072, 1088]"

definition Zakaz :: ustr where
  \<comment> \<open>Zakaz (order)\<close>
  "Zakaz = [1047, 1072, 1082, 1072, 1079]"

definition tovar :: ustr where
  \<comment> \<open>tovar (item)\<close>
  "tovar = [1090, 1086, 1074, 1072, 1088]"

definition tovarov :: ustr where
  \<comment> \<open>tovarov (items)\<close>
  "tovarov = [1090, 1086, 1074, 1072, 1088, 1086, 1074]"

definition NA :: ustr where
  "NA = ascii ''N/A''"

text \<open>
  The dictionary \<open>color_patterns\<close> of \<open>extract_color_from_product\<close>, in the order of the
  source (a dictionary is read in insertion order): the pattern searched in the lower-case
  name, and the colour returned. The Russian colours are, in order: krasnyy (red), siniy,
  goluboy, zelenyy, zheltyy, oranzhevyy, fioletovyy, rozovyy, fuksiya, korichnevyy,
  chernyy, belyy, seryy, zolotoy, serebryanyy, raduzhnyy, raznotsvetnyy.
\<close>

definition color_patterns :: "(ustr \<times> ustr) list" where
  "color_patterns =
     [([1082, 1088, 1072, 1089, 1085],
       [1082, 1088, 1072, 1089, 1085, 1099, 1081]),
      ([1089, 1080, 1085],
       [1089, 1080, 1085, 1080, 1081]),
      ([1075, 1086, 1083, 1091, 1073],
       [1075, 1086, 1083, 1091, 1073, 1086, 1081]),
      ([1079, 1077, 1083, 1077, 1085],
       [1079, 1077, 1083, 1077, 1085, 1099, 1081]),
      ([1078, 1077, 1083, 1090],
       [1078, 1077, 1083, 1090, 1099, 1081]),
      ([1086, 1088, 1072, 1085, 1078],
       [1086, 1088, 1072, 1085, 1078, 1077, 1074, 1099, 1081]),
      ([1092, 1080, 1086, 1083, 1077, 1090],
       [1092, 1080, 1086, 1083, 1077, 1090, 1086, 1074, 1099, 1081]),
      ([1088, 1086, 1079, 1086, 1074],
       [1088, 1086, 1079, 1086, 1074, 1099, 1081]),
      ([1092, 1091, 1082, 1089, 1080],
       [1092, 1091, 1082, 1089, 1080, 1103]),
      ([1082, 1086, 1088, 1080, 1095, 1085, 1077, 1074],
       [1082, 1086, 1088, 1080, 1095, 1085, 1077, 1074, 1099, 1081]),
      ([1095, 1077, 1088, 1085],
       [1095, 1077, 1088, 1085, 1099, 1081]),
      ([1073, 1077, 1083],
       [1073, 1077, 1083, 1099, 1081]),
      ([1089, 1077, 1088],
       [1089, 1077, 1088, 1099, 1081]),
      ([1079, 1086, 1083, 1086, 1090],
       [1079, 1086, 1083, 1086, 1090, 1086, 1081]),
      ([1089, 1077, 1088, 1077, 1073, 1088],
       [1089, 1077, 1088, 1077, 1073, 1088, 1103, 1085, 1099, 1081]),
      ([1088, 1072, 1076, 1091, 1078, 1085],
       [1088, 1072, 1076, 1091, 1078, 1085, 1099, 1081]),
      ([1088, 1072, 1079, 1085, 1086, 1094, 1074, 1077, 1090, 1085],
       [1088, 1072, 1079, 1085, 1086, 1094, 1074, 1077, 1090, 1085, 1099, 1081]),
      ([109, 117, 108, 116, 105, 99, 111, 108, 111, 114],
       [1088, 1072, 1079, 1085, 1086, 1094, 1074, 1077, 1090, 1085, 1099, 1081]),
      ([114, 97, 105, 110, 98, 111, 119],
       [1088, 1072, 1076, 1091, 1078, 1085, 1099, 1081]),
      ([114, 101, 100],
       [1082, 1088, 1072, 1089, 1085, 1099, 1081]),
      ([98, 108, 117, 101],
       [1089, 1080, 1085, 1080, 1081]),
      ([103, 114, 101, 101, 110],
       [1079, 1077, 1083, 1077, 1085, 1099, 1081]),
      ([121, 101, 108, 108, 111, 119],
       [1078, 1077, 1083, 1090, 1099, 1081]),
      ([111, 114, 97, 110, 103, 101],
       [1086, 1088, 1072, 1085, 1078, 1077, 1074, 1099, 1081]),
      ([112, 117, 114, 112, 108, 101],
       [1092, 1080, 1086, 1083, 1077, 1090, 1086, 1074, 1099, 1081]),
      ([112, 105, 110, 107],
       [1088, 1086, 1079, 1086, 1074, 1099, 1081]),
      ([102, 117, 99, 104, 115, 105, 97],
       [1092, 1091, 1082, 1089, 1080, 1103]),
      ([98, 114, 111, 119, 110],
       [1082, 1086, 1088, 1080, 1095, 1085, 1077, 1074, 1099, 1081]),
      ([98, 108, 97, 99, 107],
       [1095, 1077, 1088, 1085, 1099, 1081]),
      ([119, 104, 105, 116, 101],
       [1073, 1077, 1083, 1099, 1081]),
      ([103, 114, 97, 121],
       [1089, 1077, 1088, 1099, 1081]),
      ([103, 114, 101, 121],
       [1089, 1077, 1088, 1099, 1081]),
      ([103, 111, 108, 100],
       [1079, 1086, 1083, 1086, 1090, 1086, 1081]),
      ([115, 105, 108, 118, 101, 114],
       [1089, 1077, 1088, 1077, 1073, 1088, 1103, 1085, 1099, 1081])]"

text \<open>The list \<open>color_words\<close> of \<open>shorten_product_name_for_barcode\<close>.\<close>

definition color_words :: "ustr list" where
  "color_words =
     [[1082, 1088, 1072, 1089, 1085, 1099, 1081],
      [1089, 1080, 1085, 1080, 1081],
      [1075, 1086, 1083, 1091, 1073, 1086, 1081],
      [1079, 1077, 1083, 1077, 1085, 1099, 1081],
      [1078, 1077, 1083, 1090, 1099, 1081],
      [1086, 1088, 1072, 1085, 1078, 1077, 1074, 1099, 1081],
      [1092, 1080, 1086, 1083, 1077, 1090, 1086, 1074, 1099, 1081],
      [1088, 1086, 1079, 1086, 1074, 1099, 1081],
      [1092, 1091, 1082, 1089, 1080, 1103],
      [1082, 1086, 1088, 1080, 1095, 1085, 1077, 1074, 1099, 1081],
      [1095, 1077, 1088, 1085, 1099, 1081],
      [1073, 1077, 1083, 1099, 1081],
      [1089, 1077, 1088, 1099, 1081],
      [1079, 1086, 1083, 1086, 1090, 1086, 1081],
      [1089, 1077, 1088, 1077, 1073, 1088, 1103, 1085, 1099, 1081],
      [1088, 1072, 1076, 1091, 1078, 1085, 1099, 1081],
      [1088, 1072, 1079, 1085, 1086, 1094, 1074, 1077, 1090, 1085, 1099, 1081]]"

text \<open>
  \<open>extract_color_from_product(product_data, product_name)\<close>: the first entry of
  \<open>product_data['color_image']\<close> when there is one; else the colour of the first pattern
  that occurs in the lower-case name; else \<open>'N/A'\<close>.
\<close>

fun first_color :: "(ustr \<times> ustr) list \<Rightarrow> ustr \<Rightarrow> ustr" where
  "first_color [] name_lower = NA"
| "first_color ((pattern, color) # rest) name_lower =
     (if contains name_lower pattern then color else first_color rest name_lower)"

definition extract_color_from_product :: "ustr list \<Rightarrow> ustr \<Rightarrow> ustr" where
  "extract_color_from_product color_image product_name =
     (if color_image \<noteq> [] then hd color_image
      else if product_name = [] \<or> product_name = NA then NA
      else first_color color_patterns (py_lower product_name))"

text \<open>
  The loops of \<open>shorten_product_name_for_barcode\<close>. \<open>take_words\<close>: words are added to
  \<open>result\<close> while the result, and \<open>extra\<close> characters kept for the colour, stay within
  \<open>max_length\<close>; the loop ends at the first word that does not fit.
\<close>

fun take_words :: "nat \<Rightarrow> nat \<Rightarrow> ustr \<Rightarrow> ustr list \<Rightarrow> ustr" where
  "take_words max_length extra result [] = result"
| "take_words max_length extra result (word # rest) =
     (if length (test_line result word) + extra \<le> max_length
      then take_words max_length extra (test_line result word) rest
      else result)"

text \<open>
  \<open>abbreviate\<close>: the loop that builds \<open>shortened_words\<close>; a word of more than 4 characters
  becomes its first 3 characters and a full stop.
\<close>

fun abbreviate :: "nat \<Rightarrow> nat \<Rightarrow> ustr list \<Rightarrow> ustr list \<Rightarrow> ustr list" where
  "abbreviate max_length current_length shortened_words [] = shortened_words"
| "abbreviate max_length current_length shortened_words (word # rest) =
     (let short_word = (if length word > 4 then take 3 word @ [46] else word)
      in if current_length + length short_word + 1 \<le> max_length
         then abbreviate max_length (current_length + length short_word + 1)
                (shortened_words @ [short_word]) rest
         else shortened_words)"

definition shorten_product_name_for_barcode :: "ustr \<Rightarrow> nat \<Rightarrow> ustr" where
  "shorten_product_name_for_barcode product_name max_length =
     (if product_name = [] \<or> product_name = NA then Tovar
      else
        let clean_name = filter (\<lambda>c. is_word_char c \<or> is_space c \<or> c = 45) product_name in
        if length clean_name \<le> max_length then clean_name
        else
          let words = py_split clean_name in
          if words = [] then take max_length clean_name
          else
            case find (\<lambda>word. py_lower word \<in> set color_words) words of
              Some color_found \<Rightarrow>
                let words_without_color =
                      filter (\<lambda>w. py_lower w \<noteq> py_lower color_found) words;
                    result = take_words max_length (length color_found + 1) [] words_without_color
                in if result \<noteq> [] then result @ [32] @ color_found else color_found
            | None \<Rightarrow>
                let result = take_words max_length 0 [] words;
                    result2 = (if result = []
                               then py_join [32] (abbreviate max_length 0 [] words)
                               else result)
                in if result2 = [] then take max_length clean_name else result2)"

text \<open>
  The description of the order in \<open>generate_smart_label\<close>. A line item is a dictionary;
  \<open>p.get('name', 'Tovar')\<close> and \<open>p.get('quantity', 1)\<close> give the defaults.
\<close>

record line_item =
  item_name :: "ustr option"
  item_sku :: "ustr option"
  item_quantity :: "int option"

definition name_of :: "line_item \<Rightarrow> ustr" where
  "name_of p = (case item_name p of None \<Rightarrow> Tovar | Some n \<Rightarrow> n)"

definition quantity_of :: "line_item \<Rightarrow> int" where
  "quantity_of p = (case item_quantity p of None \<Rightarrow> 1 | Some q \<Rightarrow> q)"

text \<open>
  The name shown for one product. The block is repeated in the source for each number of
  products, with other lengths: \<open>with_color\<close> is the length when a colour was found in the
  name (the colour is then removed with \<open>replace\<close> and appended as a word), \<open>plain\<close> the
  length otherwise.
\<close>

definition display_name :: "ustr \<Rightarrow> nat \<Rightarrow> nat \<Rightarrow> ustr" where
  "display_name full_name with_color plain =
     (let color = extract_color_from_product [] full_name in
      if color \<noteq> NA \<and> contains (py_lower full_name) (py_lower color)
      then
        let short_name =
              py_strip (shorten_product_name_for_barcode
                          (py_replace full_name (py_lower color) []) with_color)
        in if short_name \<noteq> [] then short_name @ [32] @ color else color
      else shorten_product_name_for_barcode full_name plain)"

definition item_text :: "line_item \<Rightarrow> ustr" where
  "item_text p = display_name (name_of p) 6 8 @ ascii '' x'' @ ustr_of_int (quantity_of p)"

definition product_text :: "line_item list \<Rightarrow> ustr \<Rightarrow> ustr" where
  "product_text products_info product_name =
     (if products_info \<noteq> []
      then
        let total_items = sum_list (map quantity_of products_info) in
        if length products_info = 1
        then Zakaz @ [32] @ ustr_of_int total_items @ [32] @ tovar @ ascii '': ''
               @ display_name (name_of (hd products_info)) 25 30
        else if length products_info \<le> 3
        then Zakaz @ [32] @ ustr_of_int total_items @ [32] @ tovarov @ ascii '': ''
               @ py_join (ascii '', '') (map item_text products_info)
        else Zakaz @ [32] @ ustr_of_int total_items @ [32] @ tovarov @ ascii '': ''
               @ py_join (ascii '', '') (map item_text (take 2 products_info))
               @ ascii '' +'' @ ustr_of_int (int (length products_info) - 2)
      else Zakaz @ ascii '': '' @ display_name product_name 10 15)"

text \<open>
  The line item of the scenario: the name is "Krasnyy chekhol dlya telefona" (red case
  for a phone) with a capital first letter, the quantity 2.
\<close>

definition red_case_name :: ustr where
  "red_case_name =
     [1050, 1088, 1072, 1089, 1085, 1099, 1081, 32, 1095, 1077, 1093, 1086, 1083, 32, 1076, 1083, 1103, 32, 1090, 1077, 1083, 1077, 1092, 1086, 1085, 1072]"

definition red_case :: line_item where
  "red_case = \<lparr>item_name = Some red_case_name, item_sku = Some (ascii ''123''),
                item_quantity = Some 2\<rparr>"

text \<open>
  The text the code builds for it: "Zakaz 2 tovar: chekhol dlya Krasnyy krasnyy".
\<close>

definition red_case_text :: ustr where
  "red_case_text =
     [1047, 1072, 1082, 1072, 1079, 32, 50, 32, 1090, 1086, 1074, 1072, 1088, 58, 32, 1095, 1077, 1093, 1086, 1083, 32, 1076, 1083, 1103, 32, 1050, 1088, 1072, 1089, 1085, 1099, 1081, 32, 1082, 1088, 1072, 1089, 1085, 1099, 1081]"

text \<open>The words "krasnyy" (the colour token) and "Krasnyy" (as in the name).\<close>

definition krasnyy :: ustr where
  "krasnyy = [1082, 1088, 1072, 1089, 1085, 1099, 1081]"

definition Krasnyy_cap :: ustr where
  "Krasnyy_cap = [1050, 1088, 1072, 1089, 1085, 1099, 1081]"

text \<open>
  The short name the code computes for the scenario, "chekhol dlya Krasnyy", and the text
  for the same name written in lower case, "Zakaz 2 tovar: chekhol dlya telefona krasnyy".
\<close>

definition red_case_short_name :: ustr where
  "red_case_short_name = [1095, 1077, 1093, 1086, 1083, 32, 1076, 1083, 1103, 32, 1050, 1088, 1072, 1089, 1085, 1099, 1081]"

definition red_case_lower_text :: ustr where
  "red_case_lower_text =
     [1047, 1072, 1082, 1072, 1079, 32, 50, 32, 1090, 1086, 1074, 1072, 1088, 58, 32, 1095, 1077, 1093, 1086, 1083, 32, 1076, 1083, 1103, 32, 1090, 1077, 1083, 1077, 1092, 1086, 1085, 1072, 32, 1082, 1088, 1072, 1089, 1085, 1099, 1081]"

section \<open>Access control of the Telegram handlers (class OzonBot)\<close>

text \<open>The part of class \<open>Config\<close> the access check reads (an environment variable).\<close>

record config =
  ADMIN_CHAT_ID :: string

definition admin_ids :: "config \<Rightarrow> string list" where
  "admin_ids cfg = [ADMIN_CHAT_ID cfg, ''669994046'']"

definition is_admin :: "config \<Rightarrow> int \<Rightarrow> bool" where
  "is_admin cfg user_id = (str_int user_id \<in> set (admin_ids cfg))"

definition check_admin_access :: "config \<Rightarrow> int \<Rightarrow> bool" where
  "check_admin_access cfg user_id = (if \<not> is_admin cfg user_id then False else True)"

text \<open>
  What a handler does is the list of calls it makes, in order. The texts of the bot are
  named, not spelled out; every operation behind the access check (a menu, a call of the
  marketplace API, a file sent) is an \<open>AdminAction\<close> with the name of the method called.
\<close>

datatype bot_text =
    AccessDeniedText | AccessDeniedAlert | WelcomeText | HelpText | OrdersMenuText
  | MonitorActiveText nat | MonitorStoppedText

datatype effect =
    SendMessage int bot_text
  | AnswerCallbackQuery string "bot_text option" bool
  | AdminAction string int

record message =
  chat_id :: int
  from_user_id :: int

record callback =
  call_id :: string
  call_data :: string
  call_chat_id :: int
  call_from_user_id :: int

definition send_access_denied :: "int \<Rightarrow> effect list" where
  "send_access_denied chat = [SendMessage chat AccessDeniedText]"

definition show_main_menu :: "config \<Rightarrow> int \<Rightarrow> int \<Rightarrow> effect list" where
  "show_main_menu cfg chat user_id =
     (if \<not> check_admin_access cfg user_id then send_access_denied chat
      else [SendMessage chat WelcomeText])"

definition start_command :: "config \<Rightarrow> message \<Rightarrow> effect list" where
  "start_command cfg msg = show_main_menu cfg (chat_id msg) (from_user_id msg)"

definition help_command :: "config \<Rightarrow> message \<Rightarrow> effect list" where
  "help_command cfg msg =
     (if \<not> check_admin_access cfg (from_user_id msg) then send_access_denied (chat_id msg)
      else [SendMessage (chat_id msg) HelpText])"

definition orders_command :: "config \<Rightarrow> message \<Rightarrow> effect list" where
  "orders_command cfg msg =
     (if \<not> check_admin_access cfg (from_user_id msg) then send_access_denied (chat_id msg)
      else [SendMessage (chat_id msg) OrdersMenuText])"

definition labels_command :: "config \<Rightarrow> message \<Rightarrow> effect list" where
  "labels_command cfg msg =
     (if \<not> check_admin_access cfg (from_user_id msg) then send_access_denied (chat_id msg)
      else [AdminAction ''show_labels_menu'' (chat_id msg)])"

text \<open>\<open>monitor_command\<close> reads the order monitor: whether it runs, and the size of its set.\<close>

definition monitor_command :: "config \<Rightarrow> bool \<Rightarrow> nat \<Rightarrow> message \<Rightarrow> effect list" where
  "monitor_command cfg is_running processed_count msg =
     (if \<not> check_admin_access cfg (from_user_id msg) then send_access_denied (chat_id msg)
      else if is_running then [SendMessage (chat_id msg) (MonitorActiveText processed_count)]
      else [SendMessage (chat_id msg) MonitorStoppedText])"

text \<open>
  \<open>callback_handler\<close>: after the access check the handler acknowledges the callback and
  runs the chain of \<open>if data == ... elif data.startswith(...)\<close>; the chain is the parameter
  \<open>dispatch\<close>, what it does for a callback.
\<close>

definition callback_handler :: "config \<Rightarrow> (callback \<Rightarrow> effect list) \<Rightarrow> callback \<Rightarrow> effect list" where
  "callback_handler cfg dispatch call =
     (if \<not> check_admin_access cfg (call_from_user_id call)
      then AnswerCallbackQuery (call_id call) (Some AccessDeniedAlert) True
             # send_access_denied (call_chat_id call)
      else AnswerCallbackQuery (call_id call) None False # dispatch call)"

section \<open>Order monitor (class OrderMonitor of ozon\_bot.py)\<close>

text \<open>
  An order of the marketplace answer is a dictionary; the monitor reads two keys of it.
  \<open>order.get("posting_number")\<close> is \<open>None\<close> when the key is missing.
\<close>

record order =
  posting_number :: "string option"
  shipment_date :: "string option"

text \<open>
  The answer of \<open>get_orders_for_packaging\<close>: a dictionary with the key \<open>error\<close>, or one
  holding the list \<open>result.postings\<close> (an absent list reads as the empty one).
\<close>

datatype api_result = ApiError string | Postings "order list"

text \<open>
  The state of the monitor: the set \<open>processed_orders\<close>, and the calls of
  \<open>send_new_orders_notification\<close> made so far (oldest first), each with its argument.
\<close>

record monitor =
  processed_orders :: "string set"
  notifications :: "order list list"

definition monitor_init :: monitor where
  "monitor_init = \<lparr>processed_orders = {}, notifications = []\<rparr>"

text \<open>
  The loop of \<open>check_new_orders\<close> over the orders of one answer: an order is new when its
  posting number is truthy (present and not empty) and not in \<open>processed_orders\<close>; it is
  appended to \<open>new_orders\<close> and its number added to the set.
\<close>

fun collect_new :: "order list \<Rightarrow> string set \<Rightarrow> order list \<Rightarrow> order list \<times> string set" where
  "collect_new [] processed new_orders = (new_orders, processed)"
| "collect_new (ord # rest) processed new_orders =
     (case posting_number ord of
        None \<Rightarrow> collect_new rest processed new_orders
      | Some pn \<Rightarrow>
          if pn \<noteq> [] \<and> pn \<notin> processed
          then collect_new rest (insert pn processed) (new_orders @ [ord])
          else collect_new rest processed new_orders)"

definition check_new_orders :: "api_result \<Rightarrow> monitor \<Rightarrow> monitor" where
  "check_new_orders result m =
     (case result of
        ApiError e \<Rightarrow> m
      | Postings orders \<Rightarrow>
          if orders = [] then m
          else
            let (new_orders, processed) = collect_new orders (processed_orders m) []
            in if new_orders \<noteq> []
               then \<lparr>processed_orders = processed,
                     notifications = notifications m @ [new_orders]\<rparr>
               else m\<lparr>processed_orders := processed\<rparr>)"

text \<open>The monitor loop: one check per answer of the marketplace, in order.\<close>

fun monitor_loop :: "api_result list \<Rightarrow> monitor \<Rightarrow> monitor" where
  "monitor_loop [] m = m"
| "monitor_loop (r # rs) m = monitor_loop rs (check_new_orders r m)"

text \<open>The posting numbers of all orders ever passed to a notification, oldest first.\<close>

definition notified :: "monitor \<Rightarrow> string list" where
  "notified m = concat (map (map (\<lambda>ord. the (posting_number ord))) (notifications m))"

section \<open>Properties of the string functions\<close>

lemma split_from_no_space:
  "\<forall>c\<in>set cur. \<not> is_space c \<Longrightarrow>
   \<forall>w\<in>set (split_from cur s). w \<noteq> [] \<and> (\<forall>c\<in>set w. \<not> is_space c)"
proof (induction s arbitrary: cur)
  case Nil
  then show ?case by simp
next
  case (Cons a s)
  show ?case
  proof (cases "is_space a")
    case True
    have "\<forall>w\<in>set (split_from [] s). w \<noteq> [] \<and> (\<forall>c\<in>set w. \<not> is_space c)"
      by (rule Cons.IH) simp
    with True Cons.prems show ?thesis by simp
  next
    case False
    have "\<forall>w\<in>set (split_from (cur @ [a]) s). w \<noteq> [] \<and> (\<forall>c\<in>set w. \<not> is_space c)"
      by (rule Cons.IH) (use False Cons.prems in auto)
    with False show ?thesis by simp
  qed
qed

lemma py_split_no_space: "w \<in> set (py_split s) \<Longrightarrow> 32 \<notin> set w"
proof
  assume a: "w \<in> set (py_split s)" and b: "32 \<in> set w"
  from a split_from_no_space [of "[]" s] have "\<forall>c\<in>set w. \<not> is_space c"
    by (simp add: py_split_def)
  with b have "\<not> is_space 32" by blast
  then show False by (simp add: is_space_def)
qed

lemma split_from_word:
  "\<forall>c\<in>set s. \<not> is_space c \<Longrightarrow> split_from cur s = (if cur @ s = [] then [] else [cur @ s])"
  by (induction s arbitrary: cur) auto

lemma py_split_word:
  "w \<noteq> [] \<Longrightarrow> \<forall>c\<in>set w. \<not> is_space c \<Longrightarrow> py_split w = [w]"
  by (simp add: py_split_def split_from_word)

section \<open>Properties of the margin cropper\<close>

lemma range_step_set:
  "0 < s \<Longrightarrow> y \<in> set (range_step a b s) \<longleftrightarrow> a \<le> y \<and> y < b \<and> s dvd (y - a)"
proof (induction a b s rule: range_step.induct)
  case (1 start stop step)
  show ?case
  proof (cases "stop \<le> start")
    case True
    with 1 show ?thesis by (simp add: range_step.simps [of start stop step])
  next
    case False
    with 1 have ih: "y \<in> set (range_step (start + step) stop step)
        \<longleftrightarrow> start + step \<le> y \<and> y < stop \<and> step dvd (y - (start + step))"
      by simp
    have s: "set (range_step start stop step) = insert start (set (range_step (start + step) stop step))"
      using False 1 by (simp add: range_step.simps [of start stop step])
    have "start \<le> y \<and> step dvd (y - start)
          \<longleftrightarrow> y = start \<or> (start + step \<le> y \<and> step dvd (y - (start + step)))"
    proof (cases "y \<le> start")
      case True
      with 1 show ?thesis by auto
    next
      case gt: False
      show ?thesis
      proof
        assume a: "start \<le> y \<and> step dvd (y - start)"
        with gt have "step \<le> y - start" by (intro dvd_imp_le) auto
        moreover from a have "step dvd (y - start) - step"
          using dvd_diff_nat [of step "y - start" step] by simp
        moreover have "y - start - step = y - (start + step)" by simp
        ultimately show "y = start \<or> (start + step \<le> y \<and> step dvd (y - (start + step)))"
          using a by auto
      next
        assume "y = start \<or> (start + step \<le> y \<and> step dvd (y - (start + step)))"
        with gt have b: "start + step \<le> y" "step dvd (y - (start + step))" by auto
        have e: "(y - (start + step)) + step = y - start" using b by simp
        have "step dvd (y - (start + step)) + step" using b(2) by simp
        then have "step dvd (y - start)" unfolding e .
        with b show "start \<le> y \<and> step dvd (y - start)" by simp
      qed
    qed
    with ih s False show ?thesis by auto
  qed
qed

lemma sample_rows_set:
  "y \<in> set (sample_rows h) \<longleftrightarrow> y < h \<and> y mod max 1 (h div 20) = 0"
  unfolding sample_rows_def by (subst range_step_set) (auto simp: mod_eq_0_iff_dvd)

lemma has_content_iff:
  "has_content img x ys \<longleftrightarrow> (\<exists>y\<in>set ys. pixel_has_content (getpixel img x y))"
  by (induction ys) auto

lemma column_has_content_iff:
  "column_has_content img x \<longleftrightarrow>
     (\<exists>y<height img. y mod max 1 (height img div 20) = 0 \<and> pixel_has_content (getpixel img x y))"
  by (auto simp: column_has_content_def has_content_iff sample_rows_set)

lemma scan_left_none: "\<forall>x\<in>set xs. \<not> column_has_content img x \<Longrightarrow> scan_left img xs = 0"
  by (induction xs) auto

lemma scan_left_first:
  "\<forall>y\<in>set xs. \<not> column_has_content img y \<Longrightarrow> column_has_content img x \<Longrightarrow>
   scan_left img (xs @ x # ys) = max 0 (int x - 10)"
  by (induction xs) auto

lemma scan_right_none:
  "\<forall>x\<in>set xs. \<not> column_has_content img x \<Longrightarrow> scan_right img xs = int (width img)"
  by (induction xs) auto

lemma scan_right_first:
  "\<forall>y\<in>set xs. \<not> column_has_content img y \<Longrightarrow> column_has_content img x \<Longrightarrow>
   scan_right img (xs @ x # ys) = min (int (width img)) (int x + 10)"
  by (induction xs) auto

lemma upt_split: "x < w \<Longrightarrow> [0..<w] = [0..<x] @ x # [Suc x..<w]"
proof -
  assume a: "x < w"
  then have "[0..<x + (w - x)] = [0..<x] @ [x..<x + (w - x)]" by (intro upt_add_eq_append) simp
  with a show ?thesis by (simp add: upt_conv_Cons)
qed

lemma left_boundary_none:
  "\<forall>x<width img. \<not> column_has_content img x \<Longrightarrow> left_boundary img = 0"
  unfolding left_boundary_def by (rule scan_left_none) simp

lemma left_boundary_first:
  assumes "x < width img" "column_has_content img x" "\<forall>y<x. \<not> column_has_content img y"
  shows "left_boundary img = max 0 (int x - 10)"
  unfolding left_boundary_def upt_split [OF assms(1)]
  by (rule scan_left_first) (use assms in auto)

lemma right_boundary_none:
  "\<forall>x<width img. \<not> column_has_content img x \<Longrightarrow> right_boundary img = int (width img)"
  unfolding right_boundary_def by (rule scan_right_none) simp

lemma right_boundary_first:
  assumes "x < width img" "column_has_content img x"
    "\<forall>y. x < y \<and> y < width img \<longrightarrow> \<not> column_has_content img y"
  shows "right_boundary img = min (int (width img)) (int x + 10)"
proof -
  have "rev [0..<width img] = rev [Suc x..<width img] @ x # rev [0..<x]"
    by (simp add: upt_split [OF assms(1)])
  then show ?thesis
    unfolding right_boundary_def using assms by (simp add: scan_right_first)
qed

lemma first_last_content:
  assumes "\<exists>x<width img. column_has_content img x"
  obtains x0 x1 where "x0 \<le> x1" "x1 < width img"
    "column_has_content img x0" "\<forall>y<x0. \<not> column_has_content img y"
    "column_has_content img x1" "\<forall>y. x1 < y \<and> y < width img \<longrightarrow> \<not> column_has_content img y"
proof -
  let ?P = "\<lambda>x. x < width img \<and> column_has_content img x"
  define x0 where "x0 = (LEAST x. ?P x)"
  define x1 where "x1 = (GREATEST x. ?P x)"
  from assms have ex: "\<exists>x. ?P x" by blast
  have bnd: "\<And>y. ?P y \<Longrightarrow> y \<le> width img" by simp
  have p0: "?P x0" unfolding x0_def using ex by (rule LeastI_ex)
  have p1: "?P x1" unfolding x1_def by (rule GreatestI_ex_nat [OF ex bnd])
  have m0: "\<forall>y<x0. \<not> column_has_content img y"
  proof (intro allI impI)
    fix y assume "y < x0"
    then have "\<not> ?P y" unfolding x0_def by (rule not_less_Least)
    with \<open>y < x0\<close> p0 show "\<not> column_has_content img y" by simp
  qed
  have m1: "\<forall>y. x1 < y \<and> y < width img \<longrightarrow> \<not> column_has_content img y"
  proof (intro allI impI notI)
    fix y assume a: "x1 < y \<and> y < width img" and c: "column_has_content img y"
    then have "?P y" by simp
    then have "y \<le> x1" unfolding x1_def by (rule Greatest_le_nat [OF _ bnd])
    with a show False by simp
  qed
  have "x0 \<le> x1"
  proof (rule ccontr)
    assume "\<not> x0 \<le> x1"
    with p0 m1 show False by auto
  qed
  with p0 p1 m0 m1 show thesis by (intro that [of x0 x1]) auto
qed

lemma width_crop [simp]: "width (crop img l r) = nat (r - l)"
  and height_crop [simp]: "height (crop img l r) = height img"
  and getpixel_crop [simp]: "getpixel (crop img l r) x y = getpixel img (nat (int x + l)) y"
  by (simp_all add: crop_def)

lemma column_has_content_crop:
  "column_has_content (crop img l r) x = column_has_content img (nat (int x + l))"
  by (simp add: column_has_content_iff)

lemma boundaries_range:
  "0 \<le> left_boundary img \<and> left_boundary img \<le> right_boundary img
   \<and> right_boundary img \<le> int (width img)"
proof (cases "\<exists>x<width img. column_has_content img x")
  case False
  then show ?thesis by (simp add: left_boundary_none right_boundary_none)
next
  case True
  then obtain x0 x1 where f: "x0 \<le> x1" "x1 < width img"
    "column_has_content img x0" "\<forall>y<x0. \<not> column_has_content img y"
    "column_has_content img x1" "\<forall>y. x1 < y \<and> y < width img \<longrightarrow> \<not> column_has_content img y"
    by (rule first_last_content)
  from f have l: "left_boundary img = max 0 (int x0 - 10)"
    by (intro left_boundary_first) auto
  from f have r: "right_boundary img = min (int (width img)) (int x1 + 10)"
    by (intro right_boundary_first) auto
  from f show ?thesis unfolding l r by auto
qed

lemma smart_crop_image_stable:
  assumes "left_boundary img > 0 \<or> right_boundary img < int (width img) - 10"
  shows "smart_crop_image (crop img (left_boundary img) (right_boundary img))
         = crop img (left_boundary img) (right_boundary img)"
proof -
  let ?l = "left_boundary img" and ?r = "right_boundary img"
  let ?c = "crop img ?l ?r"
  have ex: "\<exists>x<width img. column_has_content img x"
  proof (rule ccontr)
    assume "\<not> ?thesis"
    then have "?l = 0" "?r = int (width img)"
      by (simp_all add: left_boundary_none right_boundary_none)
    with assms show False by simp
  qed
  then obtain x0 x1 where f: "x0 \<le> x1" "x1 < width img"
    "column_has_content img x0" "\<forall>y<x0. \<not> column_has_content img y"
    "column_has_content img x1" "\<forall>y. x1 < y \<and> y < width img \<longrightarrow> \<not> column_has_content img y"
    by (rule first_last_content)
  from f have l: "?l = max 0 (int x0 - 10)"
    by (intro left_boundary_first) auto
  from f have r: "?r = min (int (width img)) (int x1 + 10)"
    by (intro right_boundary_first) auto
  have l0: "0 \<le> ?l" "?l \<le> int x0" "int x0 - ?l \<le> 10" unfolding l by auto
  have r1: "int x1 < ?r" "?r \<le> int x1 + 10" "?r \<le> int (width img)"
    unfolding r using f(2) by auto
  have wc: "int (width ?c) = ?r - ?l" using l0 r1 f(1) by simp
  let ?y0 = "nat (int x0 - ?l)" and ?y1 = "nat (int x1 - ?l)"
  have a0: "?y0 < width ?c" using l0 r1 f(1) by simp
  have b0: "column_has_content ?c ?y0" using f(3) l0 by (simp add: column_has_content_crop)
  have c0: "\<forall>y<?y0. \<not> column_has_content ?c y"
  proof (intro allI impI)
    fix y assume "y < ?y0"
    with l0 have "nat (int y + ?l) < x0" by simp
    with f(4) show "\<not> column_has_content ?c y" by (simp add: column_has_content_crop)
  qed
  have lc: "left_boundary ?c = 0"
    using left_boundary_first [OF a0 b0 c0] l0 by simp
  have a1: "?y1 < width ?c" using l0 r1 f(1) by simp
  have b1: "column_has_content ?c ?y1" using f(5) f(1) l0 by (simp add: column_has_content_crop)
  have c1: "\<forall>y. ?y1 < y \<and> y < width ?c \<longrightarrow> \<not> column_has_content ?c y"
  proof (intro allI impI)
    fix y assume a: "?y1 < y \<and> y < width ?c"
    with l0 r1 f(1) have "x1 < nat (int y + ?l) \<and> nat (int y + ?l) < width img" by auto
    with f(6) show "\<not> column_has_content ?c y" by (simp add: column_has_content_crop)
  qed
  have rc: "right_boundary ?c = int (width ?c)"
    using right_boundary_first [OF a1 b1 c1] l0 r1 f(1) wc by simp
  show ?thesis unfolding smart_crop_image_def [of ?c] lc rc by simp
qed

text \<open>
  Claim C5. Cropping an image that the cropper has already cropped returns it unchanged:
  after a crop the first content column lies at most 10 columns from the left edge and the
  last one at most 10 columns from the right edge.
\<close>

theorem smart_crop_image_idempotent:
  "smart_crop_image (smart_crop_image img) = smart_crop_image img"
proof (cases "left_boundary img > 0 \<or> right_boundary img < int (width img) - 10")
  case True
  then have "smart_crop_image img = crop img (left_boundary img) (right_boundary img)"
    by (simp add: smart_crop_image_def)
  with smart_crop_image_stable [OF True] show ?thesis by simp
next
  case False
  then have "smart_crop_image img = img" by (simp add: smart_crop_image_def)
  then show ?thesis by simp
qed

lemma stripe_image_columns:
  "column_has_content stripe_image x \<longleftrightarrow> x = 20"
  by (auto simp: column_has_content_iff stripe_image_def white_def intro: exI [of _ 0])

lemma stripe_image_boundaries:
  "left_boundary stripe_image = 10 \<and> right_boundary stripe_image = 30"
proof -
  have w: "width stripe_image = 40" by (simp add: stripe_image_def)
  have "left_boundary stripe_image = max 0 (int 20 - 10)"
    by (rule left_boundary_first) (simp_all add: stripe_image_columns w)
  moreover have "right_boundary stripe_image = min (int (width stripe_image)) (int 20 + 10)"
    by (rule right_boundary_first) (simp_all add: stripe_image_columns w)
  ultimately show ?thesis by (simp add: w)
qed

theorem smart_crop_image_idempotent_witness:
  "width (smart_crop_image stripe_image) = 20
   \<and> smart_crop_image (smart_crop_image stripe_image) = smart_crop_image stripe_image"
proof -
  have "width (smart_crop_image stripe_image) = 20"
    by (simp add: smart_crop_image_def stripe_image_boundaries)
  with smart_crop_image_idempotent [of stripe_image] show ?thesis by simp
qed

text \<open>
  Claim C4, as the code has it. A column is content exactly when one of the sampled rows
  (every \<open>max(1, height // 20)\<close>-th row from row 0) holds a pixel that passes the pixel
  test; a colour pixel passes when one of its three channels is below 250, whatever the
  other two are. With no content column the boundaries are 0 and the width. Otherwise the
  left boundary is the first content column minus 10, not below 0, and the right boundary
  is the last content column plus 10, not above the width. The image is cut to these
  boundaries when the left one is positive or the right one is more than 10 columns
  inside the width, and returned as it is otherwise.
\<close>

theorem crop_window:
  "(column_has_content img x \<longleftrightarrow>
      (\<exists>y<height img. y mod max 1 (height img div 20) = 0
          \<and> pixel_has_content (getpixel img x y)))
   \<and> (pixel_has_content (PixTuple [r, g, b]) \<longleftrightarrow> r < 250 \<or> g < 250 \<or> b < 250)
   \<and> ((\<forall>c<width img. \<not> column_has_content img c) \<longrightarrow>
        left_boundary img = 0 \<and> right_boundary img = int (width img))
   \<and> (x0 < width img \<and> column_has_content img x0 \<and> (\<forall>c<x0. \<not> column_has_content img c) \<longrightarrow>
        left_boundary img = max 0 (int x0 - 10))
   \<and> (x1 < width img \<and> column_has_content img x1
        \<and> (\<forall>c. x1 < c \<and> c < width img \<longrightarrow> \<not> column_has_content img c) \<longrightarrow>
        right_boundary img = min (int (width img)) (int x1 + 10))
   \<and> smart_crop_image img =
       (if 0 < left_boundary img \<or> right_boundary img < int (width img) - 10
        then crop img (left_boundary img) (right_boundary img) else img)"
proof -
  have a: "column_has_content img x \<longleftrightarrow>
      (\<exists>y<height img. y mod max 1 (height img div 20) = 0
          \<and> pixel_has_content (getpixel img x y))"
    by (rule column_has_content_iff)
  have b: "pixel_has_content (PixTuple [r, g, b]) \<longleftrightarrow> r < 250 \<or> g < 250 \<or> b < 250"
    by simp
  have c: "(\<forall>c<width img. \<not> column_has_content img c) \<longrightarrow>
        left_boundary img = 0 \<and> right_boundary img = int (width img)"
    by (simp add: left_boundary_none right_boundary_none)
  have d: "x0 < width img \<and> column_has_content img x0 \<and> (\<forall>c<x0. \<not> column_has_content img c) \<longrightarrow>
        left_boundary img = max 0 (int x0 - 10)"
    using left_boundary_first [of x0 img] by blast
  have e: "x1 < width img \<and> column_has_content img x1
        \<and> (\<forall>c. x1 < c \<and> c < width img \<longrightarrow> \<not> column_has_content img c) \<longrightarrow>
        right_boundary img = min (int (width img)) (int x1 + 10)"
    using right_boundary_first [of x1 img] by blast
  have f: "smart_crop_image img =
       (if 0 < left_boundary img \<or> right_boundary img < int (width img) - 10
        then crop img (left_boundary img) (right_boundary img) else img)"
    by (simp add: smart_crop_image_def)
  from a b c d e f show ?thesis by blast
qed

text \<open>On the test image: the only content column is 20, so the window is columns 10 to 29.\<close>

theorem crop_window_witness:
  "column_has_content stripe_image 20
   \<and> left_boundary stripe_image = 10 \<and> right_boundary stripe_image = 30
   \<and> smart_crop_image stripe_image = crop stripe_image 10 30"
proof -
  have w: "width stripe_image = 40" by (simp add: stripe_image_def)
  note t = crop_window [of stripe_image 20 0 0 0 20 20]
  have c: "column_has_content stripe_image 20" by (simp add: stripe_image_columns)
  have l: "left_boundary stripe_image = 10"
    using t c by (simp add: stripe_image_columns w)
  have r: "right_boundary stripe_image = 30"
    using t c by (simp add: stripe_image_columns w)
  have "smart_crop_image stripe_image = crop stripe_image 10 30"
    using t l r by simp
  with c l r show ?thesis by simp
qed

text \<open>
  The pixel \<open>(249, 255, 255)\<close> has channel average 253, not below 250, and yet makes its
  column content: the code tests each channel, not the average.
\<close>

theorem channel_average_counterexample:
  "sample_rows (height \<lparr>width = 1, height = 1, getpixel = (\<lambda>x y. PixTuple [249, 255, 255])\<rparr>) = [0]
   \<and> column_has_content
        \<lparr>width = 1, height = 1, getpixel = (\<lambda>x y. PixTuple [249, 255, 255])\<rparr> 0
   \<and> \<not> spec_pixel_has_content
        (getpixel \<lparr>width = 1, height = 1, getpixel = (\<lambda>x y. PixTuple [249, 255, 255])\<rparr> 0 0)
   \<and> (249 + 255 + 255) div 3 = (253::nat)"
  by (simp add: sample_rows_def range_step.simps column_has_content_def
      spec_pixel_has_content_def)

section \<open>Properties of the text fitting\<close>

lemma truncate_word_take: "\<exists>n. truncate_word f limit w = take n w"
proof (induction f limit w rule: truncate_word.induct)
  case (1 f limit w)
  show ?case
  proof (cases "f (w @ ellipsis) > of_int limit \<and> length w > 3")
    case True
    then have e: "truncate_word f limit w = truncate_word f limit (butlast w)"
      by (subst truncate_word.simps) auto
    from 1 [OF True] obtain n where "truncate_word f limit (butlast w) = take n (butlast w)"
      by blast
    then have "truncate_word f limit w = take (min n (length w - 1)) w"
      unfolding e by (simp add: butlast_conv_take min.commute)
    then show ?thesis by blast
  next
    case False
    then have "truncate_word f limit w = w"
      by (subst truncate_word.simps) auto
    then have "truncate_word f limit w = take (length w) w" by simp
    then show ?thesis by blast
  qed
qed

lemma truncate_word_set: "set (truncate_word f limit w) \<subseteq> set w"
proof -
  obtain n where "truncate_word f limit w = take n w" using truncate_word_take by blast
  then show ?thesis by (simp add: set_take_subset)
qed

lemma truncate_word_result:
  "f (truncate_word f limit w @ ellipsis) \<le> of_int limit \<or> length (truncate_word f limit w) \<le> 3"
proof (induction f limit w rule: truncate_word.induct)
  case (1 f limit w)
  show ?case
  proof (cases "f (w @ ellipsis) > of_int limit \<and> length w > 3")
    case True
    then have "truncate_word f limit w = truncate_word f limit (butlast w)"
      by (subst truncate_word.simps) auto
    with 1 [OF True] show ?thesis by simp
  next
    case False
    then have "truncate_word f limit w = w"
      by (subst truncate_word.simps) auto
    with False show ?thesis by auto
  qed
qed

lemma truncate_word_length:
  "min 3 (length w) \<le> length (truncate_word f limit w)"
proof (induction f limit w rule: truncate_word.induct)
  case (1 f limit w)
  show ?case
  proof (cases "f (w @ ellipsis) > of_int limit \<and> length w > 3")
    case True
    then have e: "truncate_word f limit w = truncate_word f limit (butlast w)"
      by (subst truncate_word.simps) auto
    from 1 [OF True]
    have "min 3 (length (butlast w)) \<le> length (truncate_word f limit (butlast w))" .
    with True show ?thesis unfolding e by (simp add: min_def split: if_splits)
  next
    case False
    then have "truncate_word f limit w = w"
      by (subst truncate_word.simps) auto
    then show ?thesis by simp
  qed
qed

lemma step_truncating_inv:
  assumes "32 \<notin> set word"
    and "\<forall>l\<in>set (fst st). joined_fits f limit l" and "joined_fits f limit (snd st)"
  shows "(\<forall>l\<in>set (fst (step_truncating f limit st word)). joined_fits f limit l)
         \<and> joined_fits f limit (snd (step_truncating f limit st word))"
proof -
  obtain lines cur where st: "st = (lines, cur)" by (cases st)
  from assms(2,3) have l: "\<forall>l\<in>set lines. joined_fits f limit l" and c: "joined_fits f limit cur"
    by (simp_all add: st)
  have w: "joined_fits f limit word" using assms(1) by (simp add: joined_fits_def)
  have e: "joined_fits f limit []" by (simp add: joined_fits_def)
  have t: "joined_fits f limit (truncate_word f limit word @ ellipsis)"
    using assms(1) truncate_word_set [of f limit word] by (auto simp: ellipsis_def joined_fits_def)
  consider (fits) "f (test_line cur word) \<le> of_int limit"
    | (carry) "\<not> f (test_line cur word) \<le> of_int limit" "cur \<noteq> []"
    | (cut) "\<not> f (test_line cur word) \<le> of_int limit" "cur = []" "f word > of_int limit"
    | (keep) "\<not> f (test_line cur word) \<le> of_int limit" "cur = []" "\<not> f word > of_int limit"
    by blast
  then show ?thesis
  proof cases
    case fits
    then have "step_truncating f limit st word = (lines, test_line cur word)"
      by (simp add: step_truncating_def st)
    moreover from fits have "joined_fits f limit (test_line cur word)"
      by (simp add: joined_fits_def)
    ultimately show ?thesis using l by simp
  next
    case carry
    then have "step_truncating f limit st word = (lines @ [cur], word)"
      by (simp add: step_truncating_def st)
    then show ?thesis using l c w by simp
  next
    case cut
    then have "step_truncating f limit st word
               = (lines @ [truncate_word f limit word @ ellipsis], [])"
      by (simp add: step_truncating_def st)
    then show ?thesis using l t e by simp
  next
    case keep
    then have "step_truncating f limit st word = (lines, word)"
      by (simp add: step_truncating_def st)
    then show ?thesis using l w by simp
  qed
qed

lemma step_fallback_truncating_inv:
  assumes "32 \<notin> set word"
    and "\<forall>l\<in>set (fst st). joined_fits f limit l" and "joined_fits f limit (snd st)"
  shows "(\<forall>l\<in>set (fst (step_fallback_truncating f limit st word)). joined_fits f limit l)
         \<and> joined_fits f limit (snd (step_fallback_truncating f limit st word))"
proof -
  obtain lines cur where st: "st = (lines, cur)" by (cases st)
  from assms(2,3) have l: "\<forall>l\<in>set lines. joined_fits f limit l" and c: "joined_fits f limit cur"
    by (simp_all add: st)
  have w: "joined_fits f limit word" using assms(1) by (simp add: joined_fits_def)
  have t: "joined_fits f limit (truncate_word f limit word @ ellipsis)"
    using assms(1) truncate_word_set [of f limit word] by (auto simp: ellipsis_def joined_fits_def)
  consider (fits) "f (test_line cur word) \<le> of_int limit"
    | (carry) "\<not> f (test_line cur word) \<le> of_int limit" "cur \<noteq> []"
    | (cut) "\<not> f (test_line cur word) \<le> of_int limit" "cur = []" "f word > of_int limit"
    | (keep) "\<not> f (test_line cur word) \<le> of_int limit" "cur = []" "\<not> f word > of_int limit"
    by blast
  then show ?thesis
  proof cases
    case fits
    then have "step_fallback_truncating f limit st word = (lines, test_line cur word)"
      by (simp add: step_fallback_truncating_def st)
    moreover from fits have "joined_fits f limit (test_line cur word)"
      by (simp add: joined_fits_def)
    ultimately show ?thesis using l by simp
  next
    case carry
    then have "step_fallback_truncating f limit st word = (lines @ [cur], word)"
      by (simp add: step_fallback_truncating_def st)
    then show ?thesis using l c w by simp
  next
    case cut
    then have "step_fallback_truncating f limit st word
               = (lines @ [truncate_word f limit word @ ellipsis], cur)"
      by (simp add: step_fallback_truncating_def st)
    then show ?thesis using l t c by simp
  next
    case keep
    then have "step_fallback_truncating f limit st word = (lines @ [word], cur)"
      by (simp add: step_fallback_truncating_def st)
    then show ?thesis using l w c by simp
  qed
qed

lemma step_plain_inv:
  assumes "32 \<notin> set word"
    and "\<forall>l\<in>set (fst st). joined_fits f limit l" and "joined_fits f limit (snd st)"
  shows "(\<forall>l\<in>set (fst (step_plain f limit st word)). joined_fits f limit l)
         \<and> joined_fits f limit (snd (step_plain f limit st word))"
proof -
  obtain lines cur where st: "st = (lines, cur)" by (cases st)
  from assms(2,3) have l: "\<forall>l\<in>set lines. joined_fits f limit l" and c: "joined_fits f limit cur"
    by (simp_all add: st)
  have w: "joined_fits f limit word" using assms(1) by (simp add: joined_fits_def)
  consider (fits) "f (test_line cur word) \<le> of_int limit"
    | (carry) "\<not> f (test_line cur word) \<le> of_int limit" "cur \<noteq> []"
    | (alone) "\<not> f (test_line cur word) \<le> of_int limit" "cur = []"
    by blast
  then show ?thesis
  proof cases
    case fits
    then have "step_plain f limit st word = (lines, test_line cur word)"
      by (simp add: step_plain_def st)
    moreover from fits have "joined_fits f limit (test_line cur word)"
      by (simp add: joined_fits_def)
    ultimately show ?thesis using l by simp
  next
    case carry
    then have "step_plain f limit st word = (lines @ [cur], word)"
      by (simp add: step_plain_def st)
    then show ?thesis using l c w by simp
  next
    case alone
    then have "step_plain f limit st word = (lines @ [word], cur)"
      by (simp add: step_plain_def st)
    then show ?thesis using l w c by simp
  qed
qed

lemma foldl_inv:
  assumes step: "\<And>st word. 32 \<notin> set word \<Longrightarrow>
      \<forall>l\<in>set (fst st). joined_fits f limit l \<Longrightarrow> joined_fits f limit (snd st) \<Longrightarrow>
      (\<forall>l\<in>set (fst (step st word)). joined_fits f limit l) \<and> joined_fits f limit (snd (step st word))"
  shows "\<forall>w\<in>set ws. 32 \<notin> set w \<Longrightarrow>
      \<forall>l\<in>set (fst st). joined_fits f limit l \<Longrightarrow> joined_fits f limit (snd st) \<Longrightarrow>
      (\<forall>l\<in>set (fst (foldl step st ws)). joined_fits f limit l)
      \<and> joined_fits f limit (snd (foldl step st ws))"
proof (induction ws arbitrary: st)
  case Nil
  then show ?case by simp
next
  case (Cons w ws)
  from Cons.prems have "32 \<notin> set w" by simp
  from step [OF this Cons.prems(2,3)]
  have a: "\<forall>l\<in>set (fst (step st w)). joined_fits f limit l"
    and b: "joined_fits f limit (snd (step st w))" by blast+
  from Cons.prems have "\<forall>w\<in>set ws. 32 \<notin> set w" by simp
  from Cons.IH [OF this a b] show ?case by simp
qed

lemma wrap_lines_inv:
  assumes step: "\<And>st word. 32 \<notin> set word \<Longrightarrow>
      \<forall>l\<in>set (fst st). joined_fits f limit l \<Longrightarrow> joined_fits f limit (snd st) \<Longrightarrow>
      (\<forall>l\<in>set (fst (step st word)). joined_fits f limit l) \<and> joined_fits f limit (snd (step st word))"
  shows "\<forall>l\<in>set (wrap_lines step text). joined_fits f limit l"
proof -
  have w: "\<forall>w\<in>set (py_split text). 32 \<notin> set w" using py_split_no_space by blast
  have i: "\<forall>l\<in>set (fst ([], [])). joined_fits f limit l" by simp
  have j: "joined_fits f limit (snd (([], []) :: ustr list \<times> ustr))"
    by (simp add: joined_fits_def)
  obtain lines cur where r: "foldl step ([], []) (py_split text) = (lines, cur)"
    by (cases "foldl step ([], []) (py_split text)")
  have "(\<forall>l\<in>set (fst (foldl step ([], []) (py_split text))). joined_fits f limit l)
        \<and> joined_fits f limit (snd (foldl step ([], []) (py_split text)))"
  proof (rule foldl_inv [where f = f and limit = limit and step = step])
    fix st :: "ustr list \<times> ustr" and word :: ustr
    assume "32 \<notin> set word" "\<forall>l\<in>set (fst st). joined_fits f limit l"
      "joined_fits f limit (snd st)"
    then show "(\<forall>l\<in>set (fst (step st word)). joined_fits f limit l)
        \<and> joined_fits f limit (snd (step st word))" by (rule step)
  next
    show "\<forall>w\<in>set (py_split text). 32 \<notin> set w" by (rule w)
  next
    show "\<forall>l\<in>set (fst (([], []) :: ustr list \<times> ustr)). joined_fits f limit l" by simp
  next
    show "joined_fits f limit (snd (([], []) :: ustr list \<times> ustr))" by (rule j)
  qed
  then have "\<forall>l\<in>set lines. joined_fits f limit l" "joined_fits f limit cur"
    unfolding r by simp_all
  then show ?thesis by (simp add: wrap_lines_def r)
qed

lemma try_sizes_Some:
  "try_sizes wrap_at max_height max_lines sizes = Some (fs, ls) \<Longrightarrow>
   fs \<in> set sizes \<and> ls = wrap_at fs \<and> int (length ls * fs) \<le> max_height
     \<and> length ls \<le> max_lines"
  by (induction sizes) (auto split: if_splits)

lemma smart_fit_label_Fitted:
  assumes "smart_fit_label tlen text max_width max_height = Fitted fs ls"
  shows "length ls \<le> 4 \<and> int (length ls * fs) \<le> max_height
       \<and> (\<forall>l\<in>set ls. 32 \<in> set l \<longrightarrow> tlen fs l \<le> of_int (max_width - 20))"
proof -
  let ?wrap = "\<lambda>font_size. wrap_lines (step_truncating (tlen font_size) (max_width - 20)) text"
  have "try_sizes ?wrap max_height 4 [50, 45, 40, 35, 30, 25, 20, 18, 16, 14, 12] = Some (fs, ls)"
  proof (cases "try_sizes ?wrap max_height 4 [50, 45, 40, 35, 30, 25, 20, 18, 16, 14, 12]")
    case None
    with assms show ?thesis by (simp add: smart_fit_label_def del: try_sizes.simps)
  next
    case (Some p)
    with assms show ?thesis by (cases p) (simp add: smart_fit_label_def del: try_sizes.simps)
  qed
  from try_sizes_Some [OF this]
  have a: "ls = ?wrap fs" "int (length ls * fs) \<le> max_height" "length ls \<le> 4" by blast+
  have "\<forall>l\<in>set (?wrap fs). joined_fits (tlen fs) (max_width - 20) l"
    by (rule wrap_lines_inv) (rule step_truncating_inv)
  with a show ?thesis by (simp add: joined_fits_def)
qed

lemma smart_fit_label_LastResort:
  assumes "smart_fit_label tlen text max_width max_height = LastResort fs ls"
  shows "fs = 20 \<and> length ls \<le> 3"
  using assms unfolding smart_fit_label_def
  by (auto simp del: try_sizes.simps split: option.splits prod.splits)

lemma smart_fit_barcode_Fitted:
  assumes "smart_fit_barcode tlen text max_width max_height = Fitted fs ls"
  shows "length ls \<le> 3 \<and> int (length ls * fs) \<le> max_height
       \<and> (\<forall>l\<in>set ls. 32 \<in> set l \<longrightarrow> tlen fs l \<le> of_int max_width)"
proof -
  let ?wrap = "\<lambda>font_size. wrap_lines (step_plain (tlen font_size) max_width) text"
  have "try_sizes ?wrap max_height 3 [40, 35, 30, 25, 20, 18, 16, 14, 12, 10] = Some (fs, ls)"
  proof (cases "try_sizes ?wrap max_height 3 [40, 35, 30, 25, 20, 18, 16, 14, 12, 10]")
    case None
    with assms show ?thesis by (simp add: smart_fit_barcode_def del: try_sizes.simps)
  next
    case (Some p)
    with assms show ?thesis by (cases p) (simp add: smart_fit_barcode_def del: try_sizes.simps)
  qed
  from try_sizes_Some [OF this]
  have a: "ls = ?wrap fs" "int (length ls * fs) \<le> max_height" "length ls \<le> 3" by blast+
  have "\<forall>l\<in>set (?wrap fs). joined_fits (tlen fs) max_width l"
    by (rule wrap_lines_inv) (rule step_plain_inv)
  with a show ?thesis by (simp add: joined_fits_def)
qed

lemma smart_fit_barcode_LastResort:
  assumes "smart_fit_barcode tlen text max_width max_height = LastResort fs ls"
  shows "fs = 18 \<and> length ls \<le> 2"
  using assms unfolding smart_fit_barcode_def
  by (auto simp del: try_sizes.simps split: option.splits prod.splits)

lemma wrap_lines_single_word:
  assumes "w \<noteq> []" "\<forall>c\<in>set w. \<not> is_space c"
  shows "wrap_lines (step_truncating f limit) w
         = (if f w \<le> of_int limit then [w] else [truncate_word f limit w @ ellipsis])"
  using assms
  by (simp add: wrap_lines_def py_split_word step_truncating_def test_line_def not_le)

lemma wrap_lines_empty: "wrap_lines step [] = []"
  by (simp add: wrap_lines_def py_split_def)

lemma smart_fit_label_empty:
  "smart_fit_label tlen [] max_width max_height
   = (if 0 \<le> max_height then Fitted 50 [] else LastResort 20 [])"
  by (simp add: smart_fit_label_def wrap_lines_empty)

text \<open>Evaluations with the fixed-pitch font.\<close>

lemma mono_font_ascii: "mono_font fs (ascii s) = of_nat (fs * length s * 3) / 5"
  by (simp add: mono_font_def ascii_def)

lemma ascii_no_space_ABCDEFGH: "\<forall>c\<in>set (ascii ''ABCDEFGH''). \<not> is_space c"
  by (simp add: ascii_def is_space_def)

lemma truncate_ABCDEFGH:
  "truncate_word (mono_font 50) 80 (ascii ''ABCDEFGH'') = ascii ''ABC''"
  by (simp add: truncate_word.simps mono_font_def ellipsis_def ascii_def)

lemma fit_label_narrow:
  "smart_fit_label mono_font (ascii ''ABCDEFGH'') 100 200 = Fitted 50 [ascii ''ABC...'']"
proof -
  have n: "ascii ''ABCDEFGH'' \<noteq> []" by (simp add: ascii_def)
  have "wrap_lines (step_truncating (mono_font 50) 80) (ascii ''ABCDEFGH'')
        = [truncate_word (mono_font 50) 80 (ascii ''ABCDEFGH'') @ ellipsis]"
    by (simp add: wrap_lines_single_word [OF n ascii_no_space_ABCDEFGH] mono_font_ascii)
  also have "\<dots> = [ascii ''ABC...'']"
    by (simp add: truncate_ABCDEFGH) (simp add: ascii_def ellipsis_def)
  finally show ?thesis by (simp add: smart_fit_label_def)
qed

lemma fit_label_wide:
  "smart_fit_label mono_font (ascii ''ABCDEFGH'') 1202 200 = Fitted 50 [ascii ''ABCDEFGH'']"
proof -
  have n: "ascii ''ABCDEFGH'' \<noteq> []" by (simp add: ascii_def)
  have "wrap_lines (step_truncating (mono_font 50) 1182) (ascii ''ABCDEFGH'') = [ascii ''ABCDEFGH'']"
    by (simp add: wrap_lines_single_word [OF n ascii_no_space_ABCDEFGH] mono_font_ascii)
  then show ?thesis by (simp add: smart_fit_label_def)
qed

lemma split_two_words: "py_split (ascii ''ab cd'') = [ascii ''ab'', ascii ''cd'']"
  by (simp add: py_split_def ascii_def is_space_def)

lemma fit_label_two_words:
  "smart_fit_label mono_font (ascii ''ab cd'') 1202 200 = Fitted 50 [ascii ''ab cd'']"
proof -
  have "wrap_lines (step_truncating (mono_font 50) 1182) (ascii ''ab cd'') = [ascii ''ab cd'']"
    by (simp add: wrap_lines_def split_two_words step_truncating_def test_line_def)
       (simp add: mono_font_def ascii_def)
  then show ?thesis by (simp add: smart_fit_label_def)
qed

lemma fit_label_last_resort:
  "smart_fit_label mono_font (ascii ''ab cd'') 1202 10 = LastResort 20 [ascii ''ab cd'']"
proof -
  have w: "wrap_lines (step_truncating (mono_font fs) 1182) (ascii ''ab cd'') = [ascii ''ab cd'']"
    if "fs \<le> 50" for fs
  proof -
    have "mono_font fs (ascii ''ab'') \<le> 1182" "mono_font fs (ascii ''ab cd'') \<le> 1182"
      using that by (simp_all add: mono_font_ascii)
    then have "mono_font fs (ascii ''ab'') \<le> 1182"
      "mono_font fs (ascii ''ab'' @ 32 # ascii ''cd'') \<le> 1182" by (simp_all add: ascii_def)
    then show ?thesis
      by (simp add: wrap_lines_def split_two_words step_truncating_def test_line_def)
         (simp add: ascii_def)
  qed
  have f: "wrap_lines (step_fallback_truncating (mono_font 20) 1192) (ascii ''ab cd'') = [ascii ''ab cd'']"
    by (simp add: wrap_lines_def split_two_words step_fallback_truncating_def test_line_def)
       (simp add: mono_font_def ascii_def)
  show ?thesis by (simp add: smart_fit_label_def w f)
qed

lemma split_sku:
  "py_split (ascii ''SKU: 1234567890123456789012345678901234567890'')
   = [ascii ''SKU:'', ascii ''1234567890123456789012345678901234567890'']"
  by (simp add: py_split_def ascii_def is_space_def)

lemma wrap_sku:
  assumes "25 \<le> fs" "fs \<le> 40"
  shows "wrap_lines (step_plain (mono_font fs) 500) (ascii ''SKU: 1234567890123456789012345678901234567890'')
         = [ascii ''SKU:'', ascii ''1234567890123456789012345678901234567890'']"
proof -
  have a: "mono_font fs (ascii ''SKU:'') \<le> 500"
    using assms by (simp add: mono_font_ascii)
  have "mono_font fs (ascii ''SKU: 1234567890123456789012345678901234567890'') > 500"
    using assms by (simp add: mono_font_ascii)
  then have b: "\<not> mono_font fs (ascii ''SKU:'' @ 32 # ascii ''1234567890123456789012345678901234567890'') \<le> 500"
    by (simp add: ascii_def)
  have c: "ascii ''SKU:'' \<noteq> []" "ascii ''1234567890123456789012345678901234567890'' \<noteq> []"
    by (simp_all add: ascii_def)
  show ?thesis
    by (simp add: wrap_lines_def split_sku step_plain_def test_line_def a b c)
qed

lemma fit_barcode_sku:
  "smart_fit_barcode mono_font (ascii ''SKU: 1234567890123456789012345678901234567890'') 500 50
   = Fitted 25 [ascii ''SKU:'', ascii ''1234567890123456789012345678901234567890'']"
  by (simp add: smart_fit_barcode_def wrap_sku)

lemma fit_barcode_last_resort:
  "smart_fit_barcode mono_font (ascii ''ab cd'') 500 5 = LastResort 18 [ascii ''ab cd'']"
proof -
  have w: "wrap_lines (step_plain (mono_font fs) 500) (ascii ''ab cd'') = [ascii ''ab cd'']"
    if "fs \<le> 40" for fs
  proof -
    have "mono_font fs (ascii ''ab'') \<le> 500" "mono_font fs (ascii ''ab cd'') \<le> 500"
      using that by (simp_all add: mono_font_ascii)
    then have "mono_font fs (ascii ''ab'') \<le> 500"
      "mono_font fs (ascii ''ab'' @ 32 # ascii ''cd'') \<le> 500" by (simp_all add: ascii_def)
    then show ?thesis
      by (simp add: wrap_lines_def split_two_words step_plain_def test_line_def)
         (simp add: ascii_def)
  qed
  show ?thesis by (simp add: smart_fit_barcode_def w)
qed

text \<open>
  Claim C3, as the code has it. In \<open>generate_smart_label\<close> a fit at a candidate size has at
  most 4 lines, a total height within \<open>max_height\<close>, and every line of two words or more
  (a line with a space in it) is at most \<open>max_width - 20\<close> wide; the last resort draws at
  most 3 lines at size 20. In \<open>generate_barcode_image\<close> a fit has at most 3 lines within
  \<open>max_height\<close>, every line of two words or more is at most \<open>max_width\<close> wide, and the
  last resort draws at most 2 lines at size 18. A word that is shortened either fits the
  limit with its \<open>"..."\<close> or is down to 3 characters or fewer.
\<close>

theorem text_fit_lines:
  "(smart_fit_label tlen text max_width max_height = Fitted fs ls \<longrightarrow>
      length ls \<le> 4 \<and> int (length ls * fs) \<le> max_height
      \<and> (\<forall>l\<in>set ls. 32 \<in> set l \<longrightarrow> tlen fs l \<le> of_int (max_width - 20)))
   \<and> (smart_fit_label tlen text max_width max_height = LastResort fs ls \<longrightarrow>
        fs = 20 \<and> length ls \<le> 3)
   \<and> (smart_fit_barcode tlen text max_width max_height = Fitted fs ls \<longrightarrow>
        length ls \<le> 3 \<and> int (length ls * fs) \<le> max_height
        \<and> (\<forall>l\<in>set ls. 32 \<in> set l \<longrightarrow> tlen fs l \<le> of_int max_width))
   \<and> (smart_fit_barcode tlen text max_width max_height = LastResort fs ls \<longrightarrow>
        fs = 18 \<and> length ls \<le> 2)
   \<and> (f (truncate_word f limit w @ ellipsis) \<le> of_int limit
        \<or> length (truncate_word f limit w) \<le> 3)"
  using smart_fit_label_Fitted [of tlen "text" max_width max_height fs ls]
    smart_fit_label_LastResort [of tlen "text" max_width max_height fs ls]
    smart_fit_barcode_Fitted [of tlen "text" max_width max_height fs ls]
    smart_fit_barcode_LastResort [of tlen "text" max_width max_height fs ls]
    truncate_word_result [of f limit w]
  by blast

text \<open>
  With the fixed-pitch font: two short words fit on one line at size 50 in a box 1202 wide
  and 200 high, and the line is 150 wide; in a box 10 high no size passes and the last
  resort is taken.
\<close>

theorem text_fit_lines_witness:
  "smart_fit_label mono_font (ascii ''ab cd'') 1202 200 = Fitted 50 [ascii ''ab cd'']
   \<and> mono_font 50 (ascii ''ab cd'') \<le> 1182
   \<and> smart_fit_label mono_font (ascii ''ab cd'') 1202 10 = LastResort 20 [ascii ''ab cd'']
   \<and> smart_fit_barcode mono_font (ascii ''SKU: 1234567890123456789012345678901234567890'') 500 50
       = Fitted 25 [ascii ''SKU:'', ascii ''1234567890123456789012345678901234567890'']
   \<and> smart_fit_barcode mono_font (ascii ''ab cd'') 500 5 = LastResort 18 [ascii ''ab cd'']"
proof -
  have s: "32 \<in> set (ascii ''ab cd'')" by (simp add: ascii_def)
  from text_fit_lines [of mono_font "ascii ''ab cd''" 1202 200 50 "[ascii ''ab cd'']"]
    fit_label_two_words s
  have "mono_font 50 (ascii ''ab cd'') \<le> 1182" by simp
  with fit_label_two_words fit_label_last_resort fit_barcode_sku fit_barcode_last_resort
  show ?thesis by simp
qed

text \<open>
  Lines wider than the box outside the last resort. In \<open>generate_smart_label\<close>, a word of
  8 characters in a box 100 wide is cut to 3 characters and \<open>"..."\<close>, 180 wide at size
  50, and the fit is taken at that size. In \<open>generate_barcode_image\<close>, where no word is
  shortened, a number of 40 digits in a box 500 wide is a line 600 wide at size 25.
\<close>

theorem text_fit_overflow_counterexample:
  "smart_fit_label mono_font (ascii ''ABCDEFGH'') 100 200 = Fitted 50 [ascii ''ABC...'']
   \<and> mono_font 50 (ascii ''ABC...'') = 180
   \<and> smart_fit_barcode mono_font (ascii ''SKU: 1234567890123456789012345678901234567890'') 500 50
       = Fitted 25 [ascii ''SKU:'', ascii ''1234567890123456789012345678901234567890'']
   \<and> mono_font 25 (ascii ''1234567890123456789012345678901234567890'') = 600"
  using fit_label_narrow fit_barcode_sku by (simp add: mono_font_ascii)

text \<open>
  Claim C8, as the code has it. For the empty string the word list is empty, so every
  wrapping has no line at all: the first candidate size, 50, passes whenever
  \<open>max_height\<close> is not negative (the last resort is taken otherwise), and nothing is
  drawn. A text with no word boundary is one word: on its line as it is when it fits
  \<open>max_width - 20\<close>, and shortened character by character, with \<open>"..."\<close> appended, only
  when it does not.
\<close>

theorem empty_text_fit:
  "smart_fit_label tlen [] max_width max_height
     = (if 0 \<le> max_height then Fitted 50 [] else LastResort 20 [])
   \<and> draw_ops tlen x y max_width (smart_fit_label tlen [] max_width max_height) = []
   \<and> (w \<noteq> [] \<and> (\<forall>c\<in>set w. \<not> is_space c) \<longrightarrow>
        wrap_lines (step_truncating f limit) w
        = (if f w \<le> of_int limit then [w] else [truncate_word f limit w @ ellipsis]))"
  using wrap_lines_single_word [of w f limit]
  by (simp add: smart_fit_label_empty draw_ops_def fit_lines_def)

theorem empty_text_fit_witness:
  "smart_fit_label mono_font [] 1202 200 = Fitted 50 []
   \<and> draw_ops mono_font 0 0 1202 (smart_fit_label mono_font [] 1202 200) = []
   \<and> wrap_lines (step_truncating (mono_font 50) 1182) (ascii ''ABCDEFGH'') = [ascii ''ABCDEFGH'']
   \<and> wrap_lines (step_truncating (mono_font 50) 80) (ascii ''ABCDEFGH'') = [ascii ''ABC...'']"
proof -
  have n: "ascii ''ABCDEFGH'' \<noteq> []" by (simp add: ascii_def)
  have a: "wrap_lines (step_truncating (mono_font 50) 1182) (ascii ''ABCDEFGH'') = [ascii ''ABCDEFGH'']"
    using empty_text_fit [of mono_font 1202 200 0 0 "ascii ''ABCDEFGH''" "mono_font 50" 1182]
      n ascii_no_space_ABCDEFGH
    by (simp add: mono_font_ascii)
  have "wrap_lines (step_truncating (mono_font 50) 80) (ascii ''ABCDEFGH'')
        = [truncate_word (mono_font 50) 80 (ascii ''ABCDEFGH'') @ ellipsis]"
    using empty_text_fit [of mono_font 1202 200 0 0 "ascii ''ABCDEFGH''" "mono_font 50" 80]
      n ascii_no_space_ABCDEFGH
    by (simp add: mono_font_ascii)
  also have "\<dots> = [ascii ''ABC...'']"
    by (simp add: truncate_ABCDEFGH) (simp add: ascii_def ellipsis_def)
  finally have b: "wrap_lines (step_truncating (mono_font 50) 80) (ascii ''ABCDEFGH'') = [ascii ''ABC...'']" .
  note e = empty_text_fit [of mono_font 1202 200 0 0 "ascii ''ABCDEFGH''" "mono_font 50" 1182]
  have c: "smart_fit_label mono_font [] 1202 200 = Fitted 50 []"
    using e [THEN conjunct1] by simp
  have d: "draw_ops mono_font 0 0 1202 (smart_fit_label mono_font [] 1202 200) = []"
    using e [THEN conjunct2, THEN conjunct1] .
  from a b c d show ?thesis by simp
qed

text \<open>
  For the empty string no line is emitted, not one empty line; and a text with no word
  boundary that fits is not shortened.
\<close>

theorem empty_text_counterexample:
  "smart_fit_label mono_font [] 1202 200 = Fitted 50 []
   \<and> fit_lines (smart_fit_label mono_font [] 1202 200) \<noteq> [[]]
   \<and> smart_fit_label mono_font (ascii ''ABCDEFGH'') 1202 200 = Fitted 50 [ascii ''ABCDEFGH'']"
  using fit_label_wide by (simp add: smart_fit_label_empty fit_lines_def)

section \<open>Properties of the product texts\<close>

lemma replace_from_absent:
  "\<not> contains s old \<Longrightarrow> old \<noteq> [] \<Longrightarrow> replace_from fuel s old new = s"
proof (induction fuel s old new rule: replace_from.induct)
  case (1 s old new)
  then show ?case by simp
next
  case (2 fuel old new)
  then show ?case by simp
next
  case (3 fuel c cs old new)
  then show ?case by auto
qed

lemma lower_red_case_name: "py_lower red_case_name =
  [1082, 1088, 1072, 1089, 1085, 1099, 1081, 32, 1095, 1077, 1093, 1086, 1083, 32, 1076, 1083, 1103, 32, 1090, 1077, 1083, 1077, 1092, 1086, 1085, 1072]"
  by (simp add: py_lower_def lower_char_def red_case_name_def)

lemma red_case_color: "extract_color_from_product [] red_case_name = krasnyy"
  unfolding extract_color_from_product_def lower_red_case_name
  by (simp add: color_patterns_def red_case_name_def NA_def ascii_def krasnyy_def)

lemma lower_krasnyy: "py_lower krasnyy = krasnyy"
  by (simp add: py_lower_def lower_char_def krasnyy_def)

lemma red_case_contains_lower: "contains (py_lower red_case_name) krasnyy"
  unfolding lower_red_case_name by (simp add: krasnyy_def)

lemma red_case_not_contains: "\<not> contains red_case_name krasnyy"
  by (simp add: red_case_name_def krasnyy_def)

lemma red_case_replace: "py_replace red_case_name krasnyy [] = red_case_name"
  using red_case_not_contains by (simp add: py_replace_def replace_from_absent krasnyy_def)

lemma red_case_shorten:
  "shorten_product_name_for_barcode red_case_name 25 = red_case_short_name"
  by (simp add: shorten_product_name_for_barcode_def Let_def red_case_name_def NA_def ascii_def
      is_word_char_def is_space_def py_split_def py_lower_def lower_char_def color_words_def
      test_line_def red_case_short_name_def)

lemma red_case_strip: "py_strip red_case_short_name = red_case_short_name"
  by (simp add: py_strip_def red_case_short_name_def is_space_def)

lemma krasnyy_not_NA: "krasnyy \<noteq> NA"
  by (simp add: krasnyy_def NA_def ascii_def)

lemma red_case_display: "display_name red_case_name 25 30 = red_case_short_name @ [32] @ krasnyy"
proof -
  have "red_case_short_name \<noteq> []" by (simp add: red_case_short_name_def)
  then show ?thesis
    by (simp add: display_name_def red_case_color lower_krasnyy red_case_contains_lower
        red_case_replace red_case_shorten red_case_strip krasnyy_not_NA Let_def)
qed

lemma str_int_2: "ustr_of_int 2 = [50]"
  by (simp add: ustr_of_int_def ascii_def str_int_def str_nat.simps digit_char_def)

lemma red_case_product_text: "product_text [red_case] pname = red_case_text"
proof -
  have "product_text [red_case] pname
        = Zakaz @ [32] @ ustr_of_int 2 @ [32] @ tovar @ ascii '': ''
            @ display_name red_case_name 25 30"
    by (simp add: product_text_def red_case_def quantity_of_def name_of_def)
  also have "\<dots> = red_case_text"
    unfolding red_case_display str_int_2
    by (simp add: Zakaz_def tovar_def ascii_def red_case_short_name_def krasnyy_def
        red_case_text_def)
  finally show ?thesis .
qed

text \<open>The same name in lower case: the colour word is found by \<open>replace\<close> and removed.\<close>

lemma lower_case_display:
  "display_name (py_lower red_case_name) 25 30
   = [1095, 1077, 1093, 1086, 1083, 32, 1076, 1083, 1103, 32, 1090, 1077, 1083, 1077, 1092, 1086, 1085, 1072, 32, 1082, 1088, 1072, 1089, 1085, 1099, 1081]"
proof -
  have l: "py_lower (py_lower red_case_name) = py_lower red_case_name"
    unfolding lower_red_case_name by (simp add: py_lower_def lower_char_def)
  have c: "extract_color_from_product [] (py_lower red_case_name) = krasnyy"
    unfolding extract_color_from_product_def l
    unfolding lower_red_case_name
    by (simp add: color_patterns_def NA_def ascii_def krasnyy_def)
  have r: "py_replace (py_lower red_case_name) krasnyy []
           = [32, 1095, 1077, 1093, 1086, 1083, 32, 1076, 1083, 1103, 32, 1090, 1077, 1083, 1077, 1092, 1086, 1085, 1072]"
    unfolding lower_red_case_name
    by (simp add: py_replace_def krasnyy_def)
  have s: "shorten_product_name_for_barcode [32, 1095, 1077, 1093, 1086, 1083, 32, 1076, 1083, 1103, 32, 1090, 1077, 1083, 1077, 1092, 1086, 1085, 1072] 25
           = [32, 1095, 1077, 1093, 1086, 1083, 32, 1076, 1083, 1103, 32, 1090, 1077, 1083, 1077, 1092, 1086, 1085, 1072]"
    by (simp add: shorten_product_name_for_barcode_def Let_def NA_def ascii_def
        is_word_char_def is_space_def)
  have t: "py_strip [32, 1095, 1077, 1093, 1086, 1083, 32, 1076, 1083, 1103, 32, 1090, 1077, 1083, 1077, 1092, 1086, 1085, 1072]
           = [1095, 1077, 1093, 1086, 1083, 32, 1076, 1083, 1103, 32, 1090, 1077, 1083, 1077, 1092, 1086, 1085, 1072]"
    by (simp add: py_strip_def is_space_def)
  have k: "contains (py_lower red_case_name) krasnyy" by (rule red_case_contains_lower)
  show ?thesis
    by (simp add: display_name_def c l lower_krasnyy k r s t krasnyy_not_NA Let_def)
       (simp add: krasnyy_def)
qed

lemma lower_case_product_text:
  "product_text [red_case\<lparr>item_name := Some (py_lower red_case_name)\<rparr>] pname = red_case_lower_text"
proof -
  have "product_text [red_case\<lparr>item_name := Some (py_lower red_case_name)\<rparr>] pname
        = Zakaz @ [32] @ ustr_of_int 2 @ [32] @ tovar @ ascii '': ''
            @ display_name (py_lower red_case_name) 25 30"
    by (simp add: product_text_def red_case_def quantity_of_def name_of_def)
  also have "\<dots> = red_case_lower_text"
    unfolding lower_case_display str_int_2
    by (simp add: Zakaz_def tovar_def ascii_def red_case_lower_text_def)
  finally show ?thesis .
qed

text \<open>
  Claim C7, on the code. For the line item of the scenario the text is
  "Zakaz 2 tovar: chekhol dlya Krasnyy krasnyy": it holds the quantity 2 and the colour
  token "krasnyy", but the short name "chekhol dlya Krasnyy" still holds the colour word
  of the name. The colour is looked for in the lower-case name and removed with the
  case-sensitive \<open>replace\<close> from the name as given, which starts with a capital letter;
  for the same name in lower case the colour is removed.
\<close>

theorem red_case_text_keeps_color:
  "product_text [red_case] red_case_name = red_case_text
   \<and> extract_color_from_product [] red_case_name = krasnyy
   \<and> contains (py_lower red_case_name) (py_lower krasnyy)
   \<and> py_replace red_case_name (py_lower krasnyy) [] = red_case_name
   \<and> display_name red_case_name 25 30 = red_case_short_name @ [32] @ krasnyy
   \<and> contains red_case_short_name Krasnyy_cap
   \<and> py_lower Krasnyy_cap = krasnyy
   \<and> length red_case_short_name = 17
   \<and> product_text [red_case\<lparr>item_name := Some (py_lower red_case_name)\<rparr>] red_case_name
       = red_case_lower_text"
proof -
  have a: "contains red_case_short_name Krasnyy_cap"
    by (simp add: red_case_short_name_def Krasnyy_cap_def)
  have b: "py_lower Krasnyy_cap = krasnyy"
    by (simp add: py_lower_def lower_char_def Krasnyy_cap_def krasnyy_def)
  have c: "length red_case_short_name = 17" by (simp add: red_case_short_name_def)
  from a b c red_case_product_text [of red_case_name] red_case_color red_case_contains_lower
    red_case_replace red_case_display lower_case_product_text [of red_case_name]
  show ?thesis by (simp add: lower_krasnyy)
qed

section \<open>Properties of the access control\<close>

lemma digit_val_digit_char: "d < 10 \<Longrightarrow> digit_val (digit_char d) = d"
  by (simp add: digit_val_def digit_char_def)

lemma decode_str_nat: "foldl (\<lambda>a c. 10 * a + digit_val c) 0 (str_nat n) = n"
proof (induction n rule: str_nat.induct)
  case (1 n)
  show ?case
  proof (cases "n < 10")
    case True
    then show ?thesis by (simp add: str_nat.simps [of n] digit_val_digit_char)
  next
    case False
    with 1 have "foldl (\<lambda>a c. 10 * a + digit_val c) 0 (str_nat (n div 10)) = n div 10" by simp
    with False show ?thesis
      by (simp add: str_nat.simps [of n] digit_val_digit_char)
  qed
qed

lemma str_nat_hd_digit: "\<exists>d ds. d < 10 \<and> str_nat n = digit_char d # ds"
proof (induction n rule: str_nat.induct)
  case (1 n)
  show ?case
  proof (cases "n < 10")
    case True
    then show ?thesis by (auto simp: str_nat.simps [of n])
  next
    case False
    with 1 obtain d ds where "d < 10" "str_nat (n div 10) = digit_char d # ds" by auto
    with False show ?thesis by (auto simp: str_nat.simps [of n])
  qed
qed

lemma str_int_extra_admin: "str_int i = ''669994046'' \<longleftrightarrow> i = 669994046"
proof
  assume a: "str_int i = ''669994046''"
  show "i = 669994046"
  proof (cases "i < 0")
    case True
    with a show ?thesis by (simp add: str_int_def)
  next
    case False
    with a have "str_nat (nat i) = ''669994046''" by (simp add: str_int_def)
    then have "foldl (\<lambda>a c. 10 * a + digit_val c) 0 (str_nat (nat i))
             = foldl (\<lambda>a c. 10 * a + digit_val c) 0 ''669994046''" by simp
    moreover have "foldl (\<lambda>a c. 10 * a + digit_val c) 0 ''669994046'' = 669994046"
      by (simp add: digit_val_def)
    ultimately have "nat i = 669994046" by (simp only: decode_str_nat)
    with False show ?thesis by simp
  qed
next
  assume "i = 669994046"
  moreover have "str_int 669994046 = ''669994046''"
    by (simp add: str_int_def str_nat.simps digit_char_def char_of_def bit_Suc_0_iff)
  ultimately show "str_int i = ''669994046''" by simp
qed

lemma is_admin_iff:
  "is_admin cfg user_id \<longleftrightarrow> str_int user_id = ADMIN_CHAT_ID cfg \<or> user_id = 669994046"
  using str_int_extra_admin [of user_id] by (auto simp: is_admin_def admin_ids_def)

text \<open>
  Claim C10. \<open>is_admin\<close> holds exactly when the decimal text of the user id is
  \<open>Config.ADMIN_CHAT_ID\<close> or is \<open>669994046\<close> (that is, the id is 669994046). For any other
  user every command handler sends the access-denied message and nothing else, and the
  callback handler sends the access-denied alert and the access-denied message and does
  not run the dispatch chain, whatever the chain would do.
\<close>

theorem handlers_admin_only:
  "(is_admin cfg user_id \<longleftrightarrow>
      str_int user_id = ADMIN_CHAT_ID cfg \<or> str_int user_id = ''669994046'')
   \<and> (str_int user_id = ''669994046'' \<longleftrightarrow> user_id = 669994046)
   \<and> (\<not> is_admin cfg (from_user_id msg) \<longrightarrow>
        start_command cfg msg = [SendMessage (chat_id msg) AccessDeniedText]
      \<and> help_command cfg msg = [SendMessage (chat_id msg) AccessDeniedText]
      \<and> orders_command cfg msg = [SendMessage (chat_id msg) AccessDeniedText]
      \<and> labels_command cfg msg = [SendMessage (chat_id msg) AccessDeniedText]
      \<and> monitor_command cfg is_running processed_count msg
          = [SendMessage (chat_id msg) AccessDeniedText])
   \<and> (\<not> is_admin cfg (call_from_user_id call) \<longrightarrow>
        callback_handler cfg dispatch call
          = [AnswerCallbackQuery (call_id call) (Some AccessDeniedAlert) True,
             SendMessage (call_chat_id call) AccessDeniedText])"
  using str_int_extra_admin [of user_id]
  by (simp add: is_admin_iff start_command_def show_main_menu_def check_admin_access_def
      send_access_denied_def help_command_def orders_command_def labels_command_def
      monitor_command_def callback_handler_def)

text \<open>
  With the administrator 123456, the user 42 is refused: the callback
  \<open>ship_...\<close> that would mark an order as packed runs nothing of the chain.
\<close>

theorem handlers_admin_only_witness:
  "\<not> is_admin \<lparr>ADMIN_CHAT_ID = ''123456''\<rparr> 42
   \<and> is_admin \<lparr>ADMIN_CHAT_ID = ''123456''\<rparr> 123456
   \<and> is_admin \<lparr>ADMIN_CHAT_ID = ''123456''\<rparr> 669994046
   \<and> start_command \<lparr>ADMIN_CHAT_ID = ''123456''\<rparr> \<lparr>chat_id = 7, from_user_id = 42\<rparr>
       = [SendMessage 7 AccessDeniedText]
   \<and> callback_handler \<lparr>ADMIN_CHAT_ID = ''123456''\<rparr>
         (\<lambda>c. [AdminAction ''ship_order'' (call_chat_id c)])
         \<lparr>call_id = ''c1'', call_data = ''ship_0001-1'', call_chat_id = 7, call_from_user_id = 42\<rparr>
       = [AnswerCallbackQuery ''c1'' (Some AccessDeniedAlert) True, SendMessage 7 AccessDeniedText]"
proof -
  have s42: "str_int 42 = ''42''"
    by (simp add: str_int_def str_nat.simps digit_char_def char_of_def bit_Suc_0_iff)
  have s123456: "str_int 123456 = ''123456''"
    by (simp add: str_int_def str_nat.simps digit_char_def char_of_def bit_Suc_0_iff)
  have n: "\<not> is_admin \<lparr>ADMIN_CHAT_ID = ''123456''\<rparr> 42"
    using handlers_admin_only [of "\<lparr>ADMIN_CHAT_ID = ''123456''\<rparr>" 42] s42 by simp
  have a1: "is_admin \<lparr>ADMIN_CHAT_ID = ''123456''\<rparr> 123456"
    using handlers_admin_only [of "\<lparr>ADMIN_CHAT_ID = ''123456''\<rparr>" 123456] s123456 by simp
  have a2: "is_admin \<lparr>ADMIN_CHAT_ID = ''123456''\<rparr> 669994046"
    using handlers_admin_only [of "\<lparr>ADMIN_CHAT_ID = ''123456''\<rparr>" 669994046] by simp
  from n a1 a2
    handlers_admin_only [of "\<lparr>ADMIN_CHAT_ID = ''123456''\<rparr>" 42
      "\<lparr>chat_id = 7, from_user_id = 42\<rparr>" _ _
      "\<lparr>call_id = ''c1'', call_data = ''ship_0001-1'', call_chat_id = 7, call_from_user_id = 42\<rparr>"
      "\<lambda>c. [AdminAction ''ship_order'' (call_chat_id c)]"]
  show ?thesis by simp
qed

section \<open>Properties of the order monitor\<close>

lemma collect_new_inv:
  assumes "collect_new orders processed acc = (new_orders, processed')"
    and "distinct (map (\<lambda>ord. the (posting_number ord)) acc)"
    and "set (map (\<lambda>ord. the (posting_number ord)) acc) \<subseteq> processed"
    and "set (map (\<lambda>ord. the (posting_number ord)) acc) \<inter> P = {}"
    and "P \<subseteq> processed"
    and "processed - P \<subseteq> set (map (\<lambda>ord. the (posting_number ord)) acc)"
  shows "distinct (map (\<lambda>ord. the (posting_number ord)) new_orders)
       \<and> processed \<subseteq> processed'
       \<and> set (map (\<lambda>ord. the (posting_number ord)) new_orders) \<inter> P = {}
       \<and> processed' = P \<union> set (map (\<lambda>ord. the (posting_number ord)) new_orders)"
  using assms
proof (induction orders arbitrary: processed acc)
  case Nil
  then show ?case by auto
next
  case (Cons ord rest)
  show ?case
  proof (cases "posting_number ord")
    case None
    with Cons.prems(1) have "collect_new rest processed acc = (new_orders, processed')" by simp
    from Cons.IH [OF this Cons.prems(2-6)] show ?thesis .
  next
    case (Some pn)
    show ?thesis
    proof (cases "pn \<noteq> [] \<and> pn \<notin> processed")
      case True
      with Some Cons.prems(1)
      have c: "collect_new rest (insert pn processed) (acc @ [ord]) = (new_orders, processed')"
        by simp
      have "distinct (map (\<lambda>ord. the (posting_number ord)) (acc @ [ord]))"
        using Cons.prems True Some by auto
      moreover have "set (map (\<lambda>ord. the (posting_number ord)) (acc @ [ord])) \<subseteq> insert pn processed"
        using Cons.prems Some by auto
      moreover have "set (map (\<lambda>ord. the (posting_number ord)) (acc @ [ord])) \<inter> P = {}"
        using Cons.prems True Some by auto
      moreover have "P \<subseteq> insert pn processed" using Cons.prems by auto
      moreover have "insert pn processed - P \<subseteq> set (map (\<lambda>ord. the (posting_number ord)) (acc @ [ord]))"
        using Cons.prems Some by auto
      ultimately show ?thesis using Cons.IH [OF c] by blast
    next
      case False
      with Some Cons.prems(1) have "collect_new rest processed acc = (new_orders, processed')"
        by auto
      from Cons.IH [OF this Cons.prems(2-6)] show ?thesis .
    qed
  qed
qed

lemma collect_new_start:
  assumes "collect_new orders P [] = (new_orders, processed')"
  shows "distinct (map (\<lambda>ord. the (posting_number ord)) new_orders)
       \<and> P \<subseteq> processed'
       \<and> set (map (\<lambda>ord. the (posting_number ord)) new_orders) \<inter> P = {}
       \<and> processed' = P \<union> set (map (\<lambda>ord. the (posting_number ord)) new_orders)"
  using collect_new_inv [OF assms, of P] by simp

lemma check_new_orders_inv:
  assumes "distinct (notified m)" and "set (notified m) \<subseteq> processed_orders m"
  shows "distinct (notified (check_new_orders r m))
       \<and> set (notified (check_new_orders r m)) \<subseteq> processed_orders (check_new_orders r m)
       \<and> processed_orders m \<subseteq> processed_orders (check_new_orders r m)"
proof (cases r)
  case (ApiError e)
  with assms show ?thesis by (simp add: check_new_orders_def)
next
  case (Postings orders)
  obtain new_orders processed'
    where c: "collect_new orders (processed_orders m) [] = (new_orders, processed')"
    by (cases "collect_new orders (processed_orders m) []") auto
  note f = collect_new_start [OF c]
  show ?thesis
  proof (cases "orders = []")
    case True
    with Postings assms show ?thesis by (simp add: check_new_orders_def)
  next
    case False
    show ?thesis
    proof (cases "new_orders = []")
      case True
      with False Postings c f assms show ?thesis
        by (auto simp: check_new_orders_def notified_def)
    next
      case ne: False
      have n: "notified (check_new_orders r m)
               = notified m @ map (\<lambda>ord. the (posting_number ord)) new_orders"
        using False ne Postings c by (simp add: check_new_orders_def notified_def)
      have p: "processed_orders (check_new_orders r m) = processed'"
        using False ne Postings c by (simp add: check_new_orders_def)
      show ?thesis unfolding n p using f assms by auto
    qed
  qed
qed

lemma monitor_loop_inv:
  "distinct (notified m) \<Longrightarrow> set (notified m) \<subseteq> processed_orders m \<Longrightarrow>
   distinct (notified (monitor_loop rs m))
   \<and> set (notified (monitor_loop rs m)) \<subseteq> processed_orders (monitor_loop rs m)
   \<and> processed_orders m \<subseteq> processed_orders (monitor_loop rs m)"
proof (induction rs arbitrary: m)
  case Nil
  then show ?case by simp
next
  case (Cons r rs)
  from check_new_orders_inv [OF Cons.prems, of r]
  have a: "distinct (notified (check_new_orders r m))"
    and b: "set (notified (check_new_orders r m)) \<subseteq> processed_orders (check_new_orders r m)"
    and c: "processed_orders m \<subseteq> processed_orders (check_new_orders r m)"
    by blast+
  from Cons.IH [OF a b] c show ?case by auto
qed

lemma collect_new_some:
  "collect_new orders processed acc = (new_orders, processed') \<Longrightarrow>
   \<forall>ord\<in>set acc. \<exists>pn. posting_number ord = Some pn \<and> pn \<noteq> [] \<Longrightarrow>
   \<forall>ord\<in>set new_orders. \<exists>pn. posting_number ord = Some pn \<and> pn \<noteq> []"
proof (induction orders arbitrary: processed acc)
  case Nil
  then show ?case by simp
next
  case (Cons ord rest)
  show ?case
  proof (cases "posting_number ord")
    case None
    with Cons.prems(1) have "collect_new rest processed acc = (new_orders, processed')" by simp
    from Cons.IH [OF this Cons.prems(2)] show ?thesis .
  next
    case (Some pn)
    show ?thesis
    proof (cases "pn \<noteq> [] \<and> pn \<notin> processed")
      case True
      with Some Cons.prems(1)
      have c: "collect_new rest (insert pn processed) (acc @ [ord]) = (new_orders, processed')"
        by simp
      have "\<forall>ord\<in>set (acc @ [ord]). \<exists>pn. posting_number ord = Some pn \<and> pn \<noteq> []"
        using Cons.prems(2) Some True by auto
      from Cons.IH [OF c this] show ?thesis .
    next
      case False
      with Some Cons.prems(1) have "collect_new rest processed acc = (new_orders, processed')"
        by auto
      from Cons.IH [OF this Cons.prems(2)] show ?thesis .
    qed
  qed
qed

lemma check_new_orders_step:
  "(check_new_orders r m = m
    \<or> (notifications (check_new_orders r m) = notifications m
       \<and> processed_orders m \<subseteq> processed_orders (check_new_orders r m)))
   \<or> (\<exists>new_orders. new_orders \<noteq> []
        \<and> notifications (check_new_orders r m) = notifications m @ [new_orders]
        \<and> (\<forall>ord\<in>set new_orders. \<exists>pn. posting_number ord = Some pn \<and> pn \<noteq> []
              \<and> pn \<notin> processed_orders m \<and> pn \<in> processed_orders (check_new_orders r m))
        \<and> distinct (map (\<lambda>ord. the (posting_number ord)) new_orders))"
proof (cases r)
  case (ApiError e)
  then show ?thesis by (simp add: check_new_orders_def)
next
  case (Postings orders)
  obtain new_orders processed'
    where c: "collect_new orders (processed_orders m) [] = (new_orders, processed')"
    by (cases "collect_new orders (processed_orders m) []") auto
  note f = collect_new_start [OF c]
  have g: "\<forall>ord\<in>set new_orders. \<exists>pn. posting_number ord = Some pn \<and> pn \<noteq> []"
    using collect_new_some [OF c] by simp
  show ?thesis
  proof (cases "orders = [] \<or> new_orders = []")
    case True
    with Postings c f show ?thesis by (auto simp: check_new_orders_def)
  next
    case False
    then have n: "notifications (check_new_orders r m) = notifications m @ [new_orders]"
      and p: "processed_orders (check_new_orders r m) = processed'"
      using Postings c by (simp_all add: check_new_orders_def)
    have "\<forall>ord\<in>set new_orders. \<exists>pn. posting_number ord = Some pn \<and> pn \<noteq> []
              \<and> pn \<notin> processed_orders m \<and> pn \<in> processed'"
    proof
      fix ord assume o: "ord \<in> set new_orders"
      with g obtain pn where pn: "posting_number ord = Some pn" "pn \<noteq> []" by blast
      with o have "pn \<in> set (map (\<lambda>ord. the (posting_number ord)) new_orders)" by force
      with f pn show "\<exists>pn. posting_number ord = Some pn \<and> pn \<noteq> []
              \<and> pn \<notin> processed_orders m \<and> pn \<in> processed'" by auto
    qed
    with n p f False show ?thesis by blast
  qed
qed

lemma check_new_orders_mono:
  "processed_orders m \<subseteq> processed_orders (check_new_orders r m)"
proof (cases r)
  case (ApiError e)
  then show ?thesis by (simp add: check_new_orders_def)
next
  case (Postings orders)
  obtain new_orders processed'
    where c: "collect_new orders (processed_orders m) [] = (new_orders, processed')"
    by (cases "collect_new orders (processed_orders m) []") auto
  from collect_new_start [OF c] have "processed_orders m \<subseteq> processed'" by simp
  with Postings c show ?thesis by (simp add: check_new_orders_def)
qed

text \<open>
  Claim C9. Over any sequence of checks started from the state \<open>__init__\<close> builds, no posting
  number is passed to a notification twice; a check never removes a number from
  \<open>processed_orders\<close>; and a check either sends nothing, or sends one notification whose
  orders all have a posting number that was not in the set before the check and is in it
  after.
\<close>

theorem monitor_notifies_once:
  "distinct (notified (monitor_loop rs monitor_init))
   \<and> processed_orders m \<subseteq> processed_orders (check_new_orders r m)
   \<and> processed_orders m \<subseteq> processed_orders (monitor_loop rs m)
   \<and> (notifications (check_new_orders r m) = notifications m
      \<or> (\<exists>new_orders. notifications (check_new_orders r m) = notifications m @ [new_orders]
           \<and> (\<forall>ord\<in>set new_orders. \<exists>pn. posting_number ord = Some pn
                 \<and> pn \<notin> processed_orders m \<and> pn \<in> processed_orders (check_new_orders r m))))"
proof -
  have a: "distinct (notified (monitor_loop rs monitor_init))"
    using monitor_loop_inv [of monitor_init rs] by (simp add: monitor_init_def notified_def)
  have b: "processed_orders m \<subseteq> processed_orders (check_new_orders r m)"
    by (rule check_new_orders_mono)
  have c: "processed_orders m \<subseteq> processed_orders (monitor_loop rs m)" for m
  proof (induction rs arbitrary: m)
    case Nil
    show ?case by simp
  next
    case (Cons r rs)
    have "processed_orders m \<subseteq> processed_orders (check_new_orders r m)"
      by (rule check_new_orders_mono)
    with Cons [of "check_new_orders r m"] show ?case by auto
  qed
  have d: "notifications (check_new_orders r m) = notifications m
      \<or> (\<exists>new_orders. notifications (check_new_orders r m) = notifications m @ [new_orders]
           \<and> (\<forall>ord\<in>set new_orders. \<exists>pn. posting_number ord = Some pn
                 \<and> pn \<notin> processed_orders m \<and> pn \<in> processed_orders (check_new_orders r m)))"
    using check_new_orders_step [of r m] by fastforce
  from a b c d show ?thesis by blast
qed

text \<open>
  Two answers that overlap, the first with a duplicate and an order with no number: three
  notified numbers, each once.
\<close>

theorem monitor_notifies_once_witness:
  "notified (monitor_loop
      [Postings [\<lparr>posting_number = Some ''A-1'', shipment_date = None\<rparr>,
                 \<lparr>posting_number = Some ''A-1'', shipment_date = None\<rparr>,
                 \<lparr>posting_number = None, shipment_date = None\<rparr>,
                 \<lparr>posting_number = Some ''B-2'', shipment_date = None\<rparr>],
       ApiError ''timeout'',
       Postings [\<lparr>posting_number = Some ''B-2'', shipment_date = None\<rparr>,
                 \<lparr>posting_number = Some ''C-3'', shipment_date = None\<rparr>]]
      monitor_init) = [''A-1'', ''B-2'', ''C-3'']
   \<and> distinct (notified (monitor_loop
      [Postings [\<lparr>posting_number = Some ''A-1'', shipment_date = None\<rparr>,
                 \<lparr>posting_number = Some ''A-1'', shipment_date = None\<rparr>,
                 \<lparr>posting_number = None, shipment_date = None\<rparr>,
                 \<lparr>posting_number = Some ''B-2'', shipment_date = None\<rparr>],
       ApiError ''timeout'',
       Postings [\<lparr>posting_number = Some ''B-2'', shipment_date = None\<rparr>,
                 \<lparr>posting_number = Some ''C-3'', shipment_date = None\<rparr>]]
      monitor_init))"
  using monitor_notifies_once
    [of "[Postings [\<lparr>posting_number = Some ''A-1'', shipment_date = None\<rparr>,
                 \<lparr>posting_number = Some ''A-1'', shipment_date = None\<rparr>,
                 \<lparr>posting_number = None, shipment_date = None\<rparr>,
                 \<lparr>posting_number = Some ''B-2'', shipment_date = None\<rparr>],
       ApiError ''timeout'',
       Postings [\<lparr>posting_number = Some ''B-2'', shipment_date = None\<rparr>,
                 \<lparr>posting_number = Some ''C-3'', shipment_date = None\<rparr>]]"
     monitor_init "ApiError ''timeout''"]
  by (simp add: monitor_init_def check_new_orders_def notified_def)

end
